theory Spec2Isabelle
  imports Complex_Main
begin

section \<open>Strings\<close>

text \<open>
  A JavaScript string is a sequence of UTF-16 code units. The model uses \<^typ>\<open>string\<close>:
  a \<^typ>\<open>char\<close> stands for a code unit in the range 0..255 (ASCII and Latin-1), which is
  where every character the source tests for lives (white space, the sentence marks
  \<open>. ! ?\<close>, the letters of \<open>update\<close>, the single space).
\<close>

text \<open>The regular expression class \<open>\s\<close> on code units below 256: tab, line feed,
  vertical tab, form feed, carriage return, space and no-break space.\<close>

definition is_space :: "char \<Rightarrow> bool" where
  "is_space c = (let n = (of_char c :: nat) in (9 \<le> n \<and> n \<le> 13) \<or> n = 32 \<or> n = 160)"

text \<open>\<open>text.split(/\s+/)\<close>: the pieces between the maximal runs of white space. A text
  that starts (ends) with white space has an empty first (last) piece, and the empty
  text has the one piece \<open>""\<close>.\<close>

function split_ws :: "string \<Rightarrow> string list" where
  "split_ws s =
     (let w = takeWhile (\<lambda>c. \<not> is_space c) s;
          r = dropWhile (\<lambda>c. \<not> is_space c) s
      in if r = [] then [w] else w # split_ws (dropWhile is_space r))"
  by pat_completeness auto
termination
proof (relation "measure length")
  show "wf (measure length)" by simp
next
  fix s :: string and w r
  assume r: "r = dropWhile (\<lambda>c. \<not> is_space c) s" and ne: "r \<noteq> []"
  from ne r have "is_space (hd r)"
    using hd_dropWhile[of "\<lambda>c. \<not> is_space c" s] by auto
  with ne have "length (dropWhile is_space r) < length r"
    by (cases r) (auto simp: less_Suc_eq_le length_dropWhile_le)
  moreover have "length r \<le> length s"
    using r by (simp add: length_dropWhile_le)
  ultimately show "(dropWhile is_space r, s) \<in> measure length" by simp
qed

declare split_ws.simps [simp del]

text \<open>\<open>words.join(" ")\<close>.\<close>

fun join_sp :: "string list \<Rightarrow> string" where
  "join_sp [] = []"
| "join_sp [w] = w"
| "join_sp (w # v # ws) = w @ '' '' @ join_sp (v # ws)"

text \<open>\<open>/[.!?]$/.test(word)\<close>: the word ends with a full stop, an exclamation mark or a
  question mark (\<open>$\<close> without the multiline flag is the end of the string).\<close>

definition ends_sentence :: "string \<Rightarrow> bool" where
  "ends_sentence word = (word \<noteq> [] \<and> last word \<in> {CHR ''.'', CHR ''!'', CHR ''?''})"

text \<open>The count the source computes, \<open>correctedText.split(/\s+/).length\<close>
  (\<open>totalWords\<close> in \<open>processPost\<close>): the number of pieces, an empty first or last piece
  included.\<close>

definition wordCount :: "string \<Rightarrow> nat" where
  "wordCount t = length (split_ws t)"

text \<open>The words of a text are its pieces that are not empty: the maximal runs of
  characters other than white space.\<close>

definition countWords :: "string \<Rightarrow> nat" where
  "countWords t = length (filter (\<lambda>w. w \<noteq> []) (split_ws t))"

section \<open>The text segmenter: \<open>splitTextIntoSegments\<close>\<close>

text \<open>
  The body of the \<open>forEach\<close>: the state is the pair of \<open>segments\<close> and
  \<open>currentSegment\<close>.
\<close>

definition segment_step :: "int \<Rightarrow> string list \<times> string list \<Rightarrow> string \<Rightarrow> string list \<times> string list" where
  "segment_step minWords st word =
     (let segments = fst st;
          currentSegment = snd st @ [word]
      in if int (length currentSegment) \<ge> minWords
         then (if ends_sentence word
               then (segments @ [join_sp currentSegment], [])
               else (segments, currentSegment))
         else (segments, currentSegment))"

definition segment_loop :: "int \<Rightarrow> string list \<Rightarrow> string list \<times> string list" where
  "segment_loop minWords ws = foldl (segment_step minWords) ([], []) ws"

text \<open>What follows the loop: the remaining words are merged into the last segment
  (\<open>segments[segments.length - 1] += " " + ...\<close>) or pushed as a segment of their own.\<close>

definition segment_rest :: "int \<Rightarrow> string list \<times> string list \<Rightarrow> string list" where
  "segment_rest minWords st =
     (let segments = fst st; currentSegment = snd st
      in if currentSegment \<noteq> []
         then (if segments \<noteq> [] \<and> int (length currentSegment) < minWords
               then segments[length segments - 1 :=
                      segments ! (length segments - 1) @ '' '' @ join_sp currentSegment]
               else segments @ [join_sp currentSegment])
         else segments)"

definition splitTextIntoSegments :: "string \<Rightarrow> int \<Rightarrow> string list" where
  "splitTextIntoSegments text minWords =
     segment_rest minWords (segment_loop minWords (split_ws text))"

text \<open>White-space normalisation: every maximal run of white space becomes one space.\<close>

fun normalize_ws :: "string \<Rightarrow> string" where
  "normalize_ws [] = []"
| "normalize_ws [c] = (if is_space c then '' '' else [c])"
| "normalize_ws (c # d # cs) =
     (if is_space c
      then (if is_space d then normalize_ws (d # cs) else CHR '' '' # normalize_ws (d # cs))
      else c # normalize_ws (d # cs))"

subsection \<open>The loop on groups of words\<close>

text \<open>
  The segments are the groups of words joined by spaces. The proofs work on the groups;
  these definitions restate the loop and the final step on them.
\<close>

definition no_space :: "string \<Rightarrow> bool" where
  "no_space w = list_all (\<lambda>c. \<not> is_space c) w"

fun inner_ok :: "string list \<Rightarrow> bool" where
  "inner_ok [] = False"
| "inner_ok [w] = no_space w"
| "inner_ok (w # v # ws) = (w \<noteq> [] \<and> no_space w \<and> inner_ok (v # ws))"

definition tokens_ok :: "string list \<Rightarrow> bool" where
  "tokens_ok ws = (case ws of [] \<Rightarrow> False | w # vs \<Rightarrow> no_space w \<and> (vs = [] \<or> inner_ok vs))"

definition group_step :: "int \<Rightarrow> string list list \<times> string list \<Rightarrow> string \<Rightarrow> string list list \<times> string list" where
  "group_step minWords st word =
     (let cur = snd st @ [word]
      in if int (length cur) \<ge> minWords \<and> ends_sentence word
         then (fst st @ [cur], []) else (fst st, cur))"

definition group_rest :: "int \<Rightarrow> string list list \<times> string list \<Rightarrow> string list list" where
  "group_rest minWords st =
     (if snd st \<noteq> []
      then (if fst st \<noteq> [] \<and> int (length (snd st)) < minWords
            then butlast (fst st) @ [last (fst st) @ snd st]
            else fst st @ [snd st])
      else fst st)"

definition groups :: "string \<Rightarrow> int \<Rightarrow> string list list" where
  "groups text minWords = group_rest minWords (foldl (group_step minWords) ([], []) (split_ws text))"

definition closed_ok :: "int \<Rightarrow> string list \<Rightarrow> bool" where
  "closed_ok m g = (g \<noteq> [] \<and> m \<le> int (length g) \<and> ends_sentence (last g))"

section \<open>Posts and the admission tests of \<open>processPost\<close>\<close>

text \<open>A post as \<open>fetchRedditPosts\<close> returns it (\<open>child.data\<close>), with the fields the
  source reads. \<open>post.selftext || ""\<close> is the field itself: the listing gives a string,
  empty for a post without text.\<close>

record post =
  title :: string
  selftext :: string
  author :: string
  subreddit_name_prefixed :: string
  ups :: int
  num_comments :: int

text \<open>\<open>toLowerCase\<close> on code units below 256: the ASCII capitals and the Latin-1
  capitals (all of 192..222 but the multiplication sign 215) move up by 32.\<close>

definition toLowerCase_char :: "char \<Rightarrow> char" where
  "toLowerCase_char c =
     (let n = (of_char c :: nat)
      in if (65 \<le> n \<and> n \<le> 90) \<or> (192 \<le> n \<and> n \<le> 222 \<and> n \<noteq> 215)
         then char_of (n + 32) else c)"

definition toLowerCase :: "string \<Rightarrow> string" where
  "toLowerCase s = map toLowerCase_char s"

text \<open>\<open>s.startsWith(p)\<close> and \<open>s.includes(p)\<close>.\<close>

fun startsWith :: "string \<Rightarrow> string \<Rightarrow> bool" where
  "startsWith s [] = True"
| "startsWith [] (p # ps) = False"
| "startsWith (c # cs) (p # ps) = (c = p \<and> startsWith cs ps)"

fun str_includes :: "string \<Rightarrow> string \<Rightarrow> bool" where
  "str_includes [] p = startsWith [] p"
| "str_includes (c # cs) p = (startsWith (c # cs) p \<or> str_includes cs p)"

text \<open>\<open>postContent.split(" ")\<close>: the pieces between single spaces; two spaces in a
  row enclose an empty piece, and no other white space separates.\<close>

function split_sp :: "string \<Rightarrow> string list" where
  "split_sp s =
     (let w = takeWhile (\<lambda>c. c \<noteq> CHR '' '') s;
          r = dropWhile (\<lambda>c. c \<noteq> CHR '' '') s
      in if r = [] then [w] else w # split_sp (tl r))"
  by pat_completeness auto
termination
proof (relation "measure length")
  show "wf (measure length)" by simp
next
  fix s :: string and w r
  assume r: "r = dropWhile (\<lambda>c. c \<noteq> CHR '' '') s" and ne: "r \<noteq> []"
  from ne have "length (tl r) < length r" by (cases r) simp_all
  moreover have "length r \<le> length s"
    using r by (simp add: length_dropWhile_le)
  ultimately show "(tl r, s) \<in> measure length" by simp
qed

declare split_sp.simps [simp del]

text \<open>The first test of \<open>processPost\<close>: the word "update" in the title or the text.\<close>

definition mentions_update :: "post \<Rightarrow> bool" where
  "mentions_update p =
     (str_includes (toLowerCase (title p)) ''update'' \<or>
      str_includes (toLowerCase (selftext p)) ''update'')"

text \<open>The second test: \<open>postContent.split(" ").length > 600\<close>.\<close>

definition exceeds_600 :: "post \<Rightarrow> bool" where
  "exceeds_600 p = (length (split_sp (selftext p)) > 600)"

definition skipped :: "post \<Rightarrow> bool" where
  "skipped p = (mentions_update p \<or> exceeds_600 p)"

section \<open>Files, calls to the outside, and the world's replies\<close>

text \<open>
  The artifact store is the file system: a file is there or not, and a media file has a
  duration in seconds (what \<open>ffprobe\<close> reports as \<open>format.duration\<close>). Local file
  operations (\<open>mkdirSync\<close>, \<open>writeFileSync\<close>, \<open>appendFileSync\<close>) are taken to succeed.
\<close>

datatype artifact = Audio real | Image | Video real | TextFile string

type_synonym files = "string \<rightharpoonup> artifact"

text \<open>The request \<open>createVideo\<close> hands to the encoder: the three inputs, the seek into
  the background (\<open>-ss 00:00:05\<close>), the output option \<open>-t\<close> and the output path. The
  filter graph and the codec options are constants of the source and are left out.\<close>

record encode_request =
  enc_background :: string
  enc_seek :: string
  enc_screenshot :: string
  enc_audio :: string
  enc_t :: real
  enc_output :: string

text \<open>Every call that leaves the process, in the order the run makes them.\<close>

datatype event =
    FetchCall string string
  | CorrectCall string
  | ShortenCall string
  | DescribeCall string string
  | TtsCall string
  | RenderCall string
  | ProbeCall string
  | EncodeCall encode_request
  | UploadCall string string string
  | CutCall string real
  | ConcatCall string string

text \<open>How a narration request ends: \<open>PlayHT.stream\<close> itself throws, or it gives a
  stream that ends with \<open>end\<close> or with \<open>error\<close>. The argument is the audio appended to
  the file until then: \<open>None\<close> when no chunk arrived, so that no file was created.\<close>

datatype tts_outcome =
    TtsCallFails
  | TtsStreamEnds "real option"
  | TtsStreamErrors "real option"

datatype error =
    TtsStreamError | RenderError | ProbeError | EncodeError | UploadError | CutError | TypeError

text \<open>The replies of the outside world; \<open>None\<close> and \<open>False\<close> stand for a call that
  throws or rejects. A cut replies with the durations of the chunks it wrote, in their
  order: the files \<open>segment_0.mp4\<close>, \<open>segment_1.mp4\<close>, and so on.\<close>

record world =
  fetch_reply :: "string \<Rightarrow> string \<Rightarrow> post list option"
  correct_reply :: "string \<Rightarrow> string option"
  shorten_reply :: "string \<Rightarrow> string option"
  describe_reply :: "string \<Rightarrow> string \<Rightarrow> string option"
  tts_reply :: "string \<Rightarrow> tts_outcome"
  render_reply :: "string \<Rightarrow> bool"
  probe_fails :: "string \<Rightarrow> bool"
  encode_reply :: "encode_request \<Rightarrow> real option"
  upload_reply :: "string \<Rightarrow> string \<Rightarrow> bool"
  cut_reply :: "string \<Rightarrow> real \<Rightarrow> real list option"
  concat_fails :: bool

text \<open>The state of the process: the files, \<open>shortTitleCache\<close> (its own properties;
  \<open>saveCache\<close> writes them out after every insert), and the names in the working
  directory, in the order \<open>readdirSync(".")\<close> returns them.\<close>

record state =
  files :: files
  shortTitleCache :: "string \<rightharpoonup> string"
  cwd :: "string list"

section \<open>Paths\<close>

definition is_alnum :: "char \<Rightarrow> bool" where
  "is_alnum c =
     (let n = (of_char c :: nat)
      in (48 \<le> n \<and> n \<le> 57) \<or> (65 \<le> n \<and> n \<le> 90) \<or> (97 \<le> n \<and> n \<le> 122))"

fun collapse_underscores :: "string \<Rightarrow> string" where
  "collapse_underscores [] = []"
| "collapse_underscores [c] = [c]"
| "collapse_underscores (c # d # cs) =
     (if c = CHR ''_'' \<and> d = CHR ''_'' then collapse_underscores (d # cs)
      else c # collapse_underscores (d # cs))"

definition strip_underscores :: "string \<Rightarrow> string" where
  "strip_underscores s =
     rev (dropWhile (\<lambda>c. c = CHR ''_'') (rev (dropWhile (\<lambda>c. c = CHR ''_'') s)))"

text \<open>\<open>sanitizeTitle\<close>: the four steps in the source's order.\<close>

definition sanitizeTitle :: "string \<Rightarrow> string" where
  "sanitizeTitle t =
     strip_underscores
       (toLowerCase
         (collapse_underscores
           (map (\<lambda>c. if is_alnum c then c else CHR ''_'') t)))"

text \<open>A number in a template string: its decimal digits.\<close>

function show_nat :: "nat \<Rightarrow> string" where
  "show_nat n =
     (if n < 10 then [char_of (48 + n)]
      else show_nat (n div 10) @ [char_of (48 + n mod 10)])"
  by pat_completeness auto
termination
  by (relation "measure id") auto

declare show_nat.simps [simp del]

definition audioFilePathOf :: "string \<Rightarrow> string \<Rightarrow> nat \<Rightarrow> string" where
  "audioFilePathOf subredditFolder shortTitle segmentIndex =
     ''./'' @ subredditFolder @ ''/'' @ sanitizeTitle shortTitle @ ''/audio/audio_'' @
     sanitizeTitle shortTitle @ ''_part'' @ show_nat segmentIndex @ ''.mp3''"

definition screenshotPathOf :: "string \<Rightarrow> string \<Rightarrow> nat option \<Rightarrow> string" where
  "screenshotPathOf subredditFolder shortTitle segmentIndex =
     ''./'' @ subredditFolder @ ''/'' @ sanitizeTitle shortTitle @ ''/screenshot/'' @
     ''screenshot_'' @ sanitizeTitle shortTitle @
     (case segmentIndex of None \<Rightarrow> [] | Some i \<Rightarrow> ''_part'' @ show_nat i) @ ''.png''"

definition outputVideoPathOf :: "string \<Rightarrow> string \<Rightarrow> nat \<Rightarrow> string" where
  "outputVideoPathOf subredditFolder shortTitle segmentIndex =
     ''./'' @ subredditFolder @ ''/'' @ sanitizeTitle shortTitle @ ''/ogVid/video_'' @
     sanitizeTitle shortTitle @ ''_part'' @ show_nat segmentIndex @ ''.mp4''"

definition descriptionPathOf :: "string \<Rightarrow> string \<Rightarrow> string" where
  "descriptionPathOf subredditFolder shortTitle =
     ''./'' @ subredditFolder @ ''/'' @ sanitizeTitle shortTitle @
     ''/description/description.txt''"

text \<open>\<open>path.dirname\<close> on the paths above: the path without its last component.\<close>

definition dirname :: "string \<Rightarrow> string" where
  "dirname p = rev (tl (dropWhile (\<lambda>c. c \<noteq> CHR ''/'') (rev p)))"

text \<open>The description file \<open>uploadToYouTube\<close> looks for, two directories above the
  video. (\<open>path.join\<close> also drops the leading \<open>./\<close>; the file is the same.)\<close>

definition descriptionFilePath :: "string \<Rightarrow> string" where
  "descriptionFilePath videoPath = dirname (dirname videoPath) @ ''/description/description.txt''"

definition backgroundVideoPath :: string where
  "backgroundVideoPath = ''./videoplayback.mp4''"

section \<open>The stages of the pipeline\<close>

text \<open>
  A stage takes the world and the state and returns its result, the new state and the
  calls it made. An awaited promise that rejects (or a \<open>throw\<close>) is \<open>Inl\<close>.
\<close>

definition correctText :: "world \<Rightarrow> string \<Rightarrow> string \<times> event list" where
  "correctText w txt =
     (case correct_reply w txt of
        Some corrected \<Rightarrow> (corrected, [CorrectCall txt])
      | None \<Rightarrow> (txt, [CorrectCall txt]))"

definition shortenTitle :: "world \<Rightarrow> string \<Rightarrow> string \<times> event list" where
  "shortenTitle w t =
     (case shorten_reply w t of
        Some short \<Rightarrow> (short, [ShortenCall t])
      | None \<Rightarrow> (t, [ShortenCall t]))"

text \<open>\<open>shortTitleCache\<close> is a plain object: a key that is not a property of its own
  is looked up in \<open>Object.prototype\<close>, whose properties are functions and objects, all
  truthy.\<close>

definition inherited_property :: "string \<Rightarrow> bool" where
  "inherited_property k =
     (k \<in> set [''constructor'', ''__defineGetter__'', ''__defineSetter__'', ''hasOwnProperty'',
                ''__lookupGetter__'', ''__lookupSetter__'', ''isPrototypeOf'',
                ''propertyIsEnumerable'', ''toString'', ''valueOf'', ''__proto__'',
                ''toLocaleString''])"

text \<open>\<open>getShortTitle\<close>: a cached title counts when it is truthy, that is, not empty. The
  result \<open>None\<close> is a value that is not a string: the inherited property found under a
  title such as \<open>constructor\<close>.\<close>

definition getShortTitle :: "world \<Rightarrow> state \<Rightarrow> string \<Rightarrow> string option \<times> state \<times> event list" where
  "getShortTitle w st postTitle =
     (case shortTitleCache st postTitle of
        Some cached \<Rightarrow>
          if cached \<noteq> [] then (Some cached, st, [])
          else (Some (fst (shortenTitle w postTitle)),
                st\<lparr>shortTitleCache := (shortTitleCache st)(postTitle \<mapsto> fst (shortenTitle w postTitle))\<rparr>,
                snd (shortenTitle w postTitle))
      | None \<Rightarrow>
          if inherited_property postTitle then (None, st, [])
          else (Some (fst (shortenTitle w postTitle)),
                st\<lparr>shortTitleCache := (shortTitleCache st)(postTitle \<mapsto> fst (shortenTitle w postTitle))\<rparr>,
                snd (shortenTitle w postTitle)))"

text \<open>\<open>generateSegmentSpeech\<close>. The promise is returned from inside the \<open>try\<close> without
  being awaited there, so the \<open>catch\<close> covers the call \<open>PlayHT.stream\<close> only: a stream
  that emits \<open>error\<close> rejects the returned promise.\<close>

definition generateSegmentSpeech ::
  "world \<Rightarrow> state \<Rightarrow> string \<Rightarrow> string \<Rightarrow> string \<Rightarrow> nat \<Rightarrow> (error + string option) \<times> state \<times> event list" where
  "generateSegmentSpeech w st segmentText shortTitle subredditFolder segmentIndex =
     (let audioFilePath = audioFilePathOf subredditFolder shortTitle segmentIndex
      in if audioFilePath \<in> dom (files st) then (Inr (Some audioFilePath), st, [])
         else (case tts_reply w segmentText of
                 TtsCallFails \<Rightarrow> (Inr None, st, [TtsCall segmentText])
               | TtsStreamEnds None \<Rightarrow> (Inr (Some audioFilePath), st, [TtsCall segmentText])
               | TtsStreamEnds (Some d) \<Rightarrow>
                   (Inr (Some audioFilePath),
                    st\<lparr>files := (files st)(audioFilePath \<mapsto> Audio d)\<rparr>,
                    [TtsCall segmentText])
               | TtsStreamErrors None \<Rightarrow> (Inl TtsStreamError, st, [TtsCall segmentText])
               | TtsStreamErrors (Some d) \<Rightarrow>
                   (Inl TtsStreamError,
                    st\<lparr>files := (files st)(audioFilePath \<mapsto> Audio d)\<rparr>,
                    [TtsCall segmentText])))"

text \<open>\<open>generateScreenshot\<close>. The content is computed before the test for an existing
  file: an empty \<open>customContent\<close> is falsy and sends \<open>post.selftext\<close> to the corrector.
  Nothing catches a failure of the renderer.\<close>

definition generateScreenshot ::
  "world \<Rightarrow> state \<Rightarrow> post \<Rightarrow> string \<Rightarrow> string \<Rightarrow> string option \<Rightarrow> nat option \<Rightarrow>
     (error + string) \<times> state \<times> event list" where
  "generateScreenshot w st p shortTitle subredditFolder customContent segmentIndex =
     (let contentCalls =
            (case customContent of
               None \<Rightarrow> snd (correctText w (selftext p))
             | Some c \<Rightarrow> if c \<noteq> [] then [] else snd (correctText w (selftext p)));
          screenshotPath = screenshotPathOf subredditFolder shortTitle segmentIndex
      in if screenshotPath \<in> dom (files st) then (Inr screenshotPath, st, contentCalls)
         else if render_reply w screenshotPath
         then (Inr screenshotPath,
               st\<lparr>files := (files st)(screenshotPath \<mapsto> Image)\<rparr>,
               contentCalls @ [RenderCall screenshotPath])
         else (Inl RenderError, st, contentCalls @ [RenderCall screenshotPath]))"

text \<open>\<open>generateDescription\<close>: no test for an existing file; a failure is caught.\<close>

definition generateDescription ::
  "world \<Rightarrow> state \<Rightarrow> string \<Rightarrow> string \<Rightarrow> string \<Rightarrow> string \<Rightarrow> string \<times> state \<times> event list" where
  "generateDescription w st t postText subredditFolder shortTitle =
     (case describe_reply w t postText of
        Some description \<Rightarrow>
          (description,
           st\<lparr>files := (files st)(descriptionPathOf subredditFolder shortTitle \<mapsto> TextFile description)\<rparr>,
           [DescribeCall t postText])
      | None \<Rightarrow> ([], st, [DescribeCall t postText]))"

text \<open>\<open>getAudioDuration\<close>: \<open>ffprobe\<close> on a file; the reply is the duration of the media
  file at the path, and an error when the probe fails or there is no such media file.\<close>

definition getAudioDuration :: "world \<Rightarrow> state \<Rightarrow> string \<Rightarrow> (error + real) \<times> event list" where
  "getAudioDuration w st filePath =
     (if probe_fails w filePath then (Inl ProbeError, [ProbeCall filePath])
      else (case files st filePath of
              Some (Audio d) \<Rightarrow> (Inr d, [ProbeCall filePath])
            | Some (Video d) \<Rightarrow> (Inr d, [ProbeCall filePath])
            | _ \<Rightarrow> (Inl ProbeError, [ProbeCall filePath])))"

text \<open>\<open>createVideo\<close>: the probed duration of the narration becomes the output option
  \<open>-t\<close>; the file the encoder writes has the duration the encoder replies.\<close>

definition createVideo ::
  "world \<Rightarrow> state \<Rightarrow> string \<Rightarrow> string \<Rightarrow> string \<Rightarrow> string \<Rightarrow> (error + string) \<times> state \<times> event list" where
  "createVideo w st backgroundPath audioPath screenshotPath outputPath =
     (case getAudioDuration w st audioPath of
        (Inl e, probeCalls) \<Rightarrow> (Inl e, st, probeCalls)
      | (Inr audioDuration, probeCalls) \<Rightarrow>
          (let request = \<lparr>enc_background = backgroundPath, enc_seek = ''00:00:05'',
                          enc_screenshot = screenshotPath, enc_audio = audioPath,
                          enc_t = audioDuration, enc_output = outputPath\<rparr>
           in case encode_reply w request of
                None \<Rightarrow> (Inl EncodeError, st, probeCalls @ [EncodeCall request])
              | Some d \<Rightarrow>
                  (Inr outputPath,
                   st\<lparr>files := (files st)(outputPath \<mapsto> Video d)\<rparr>,
                   probeCalls @ [EncodeCall request])))"

text \<open>\<open>uploadToYouTube\<close>: the description is read from the file when it exists; a
  failed upload is thrown again.\<close>

definition uploadToYouTube :: "world \<Rightarrow> state \<Rightarrow> string \<Rightarrow> string \<Rightarrow> (error + unit) \<times> event list" where
  "uploadToYouTube w st videoPath t =
     (let description =
            (case files st (descriptionFilePath videoPath) of
               Some (TextFile d) \<Rightarrow> d
             | _ \<Rightarrow> [])
      in if upload_reply w videoPath t
         then (Inr (), [UploadCall videoPath t description])
         else (Inl UploadError, [UploadCall videoPath t description]))"

text \<open>The title of the upload of segment \<open>segmentIndex\<close> out of \<open>n\<close>.\<close>

definition uploadTitle :: "string \<Rightarrow> nat \<Rightarrow> nat \<Rightarrow> string" where
  "uploadTitle shortTitle n segmentIndex =
     shortTitle @ '' '' @ (if n > 1 then ''- Part '' @ show_nat segmentIndex else []) @
     '' #relationshipadvice #shorts #trending #viral''"

section \<open>\<open>processPost\<close>\<close>

text \<open>
  The body of the loop over the segments, for the segment with number \<open>segmentIndex\<close>
  out of \<open>n\<close>. \<open>Inr ()\<close> is the end of the body or a \<open>continue\<close>: the loop goes on.
  \<open>Inl\<close> is an exception that nothing in \<open>processPost\<close> catches.
\<close>

definition processSegment ::
  "world \<Rightarrow> post \<Rightarrow> string \<Rightarrow> string \<Rightarrow> nat \<Rightarrow> nat \<Rightarrow> string \<Rightarrow> state \<Rightarrow>
     (error + unit) \<times> state \<times> event list" where
  "processSegment w p subredditFolder shortTitle n segmentIndex segmentText st =
     (case generateSegmentSpeech w st segmentText shortTitle subredditFolder segmentIndex of
        (Inl e, st1, calls1) \<Rightarrow> (Inl e, st1, calls1)
      | (Inr None, st1, calls1) \<Rightarrow> (Inr (), st1, calls1)
      | (Inr (Some audioPath), st1, calls1) \<Rightarrow>
          (case generateScreenshot w st1 p shortTitle subredditFolder (Some segmentText)
                  (Some segmentIndex) of
             (Inl e, st2, calls2) \<Rightarrow> (Inl e, st2, calls1 @ calls2)
           | (Inr screenshotPath, st2, calls2) \<Rightarrow>
               (let outputVideoPath = outputVideoPathOf subredditFolder shortTitle segmentIndex
                in if outputVideoPath \<notin> dom (files st2)
                   then (case createVideo w st2 backgroundVideoPath audioPath screenshotPath
                                outputVideoPath of
                           (Inl e, st3, calls3) \<Rightarrow> (Inr (), st3, calls1 @ calls2 @ calls3)
                         | (Inr _, st3, calls3) \<Rightarrow>
                             (Inr (), st3,
                              calls1 @ calls2 @ calls3 @
                              snd (uploadToYouTube w st3 outputVideoPath
                                     (uploadTitle shortTitle n segmentIndex))))
                   else (Inr (), st2,
                         calls1 @ calls2 @
                         snd (uploadToYouTube w st2 outputVideoPath
                                (uploadTitle shortTitle n segmentIndex))))))"

text \<open>The loop \<open>for (let i = 0; i < segments.length; i++)\<close>, from index \<open>i\<close> with the
  segments still to come.\<close>

fun processSegments ::
  "world \<Rightarrow> post \<Rightarrow> string \<Rightarrow> string \<Rightarrow> nat \<Rightarrow> nat \<Rightarrow> string list \<Rightarrow> state \<Rightarrow>
     (error + unit) \<times> state \<times> event list" where
  "processSegments w p subredditFolder shortTitle n i [] st = (Inr (), st, [])"
| "processSegments w p subredditFolder shortTitle n i (segmentText # rest) st =
     (case processSegment w p subredditFolder shortTitle n (i + 1) segmentText st of
        (Inl e, st1, calls1) \<Rightarrow> (Inl e, st1, calls1)
      | (Inr _, st1, calls1) \<Rightarrow>
          (case processSegments w p subredditFolder shortTitle n (i + 1) rest st1 of
             (r, st2, calls2) \<Rightarrow> (r, st2, calls1 @ calls2)))"

text \<open>The corrected text of a post and its segments: split only above 400 words, then
  with a minimum of 150 words.\<close>

definition correctedTextOf :: "world \<Rightarrow> post \<Rightarrow> string" where
  "correctedTextOf w p = fst (correctText w (title p @ ''\<newline>\<newline>'' @ selftext p))"

definition segmentsOf :: "world \<Rightarrow> post \<Rightarrow> string list" where
  "segmentsOf w p =
     (if length (split_ws (correctedTextOf w p)) > 400
      then splitTextIntoSegments (correctedTextOf w p) 150
      else [correctedTextOf w p])"

definition shortTitleOf :: "world \<Rightarrow> state \<Rightarrow> post \<Rightarrow> string" where
  "shortTitleOf w st p = (case fst (getShortTitle w st (title p)) of Some t \<Rightarrow> t | None \<Rightarrow> [])"

text \<open>
  \<open>processPost\<close>. When \<open>getShortTitle\<close> returns a value that is not a string,
  \<open>sanitizeTitle\<close> throws a \<open>TypeError\<close> wherever it is applied to it: inside the
  \<open>try\<close> of \<open>generateDescription\<close>, after the call, where it is caught, and at the
  start of \<open>generateSegmentSpeech\<close> for the first segment, where it is not.
\<close>

definition processPost ::
  "world \<Rightarrow> state \<Rightarrow> post \<Rightarrow> string \<Rightarrow> (error + unit) \<times> state \<times> event list" where
  "processPost w st p subredditFolder =
     (if mentions_update p then (Inr (), st, [])
      else if exceeds_600 p then (Inr (), st, [])
      else
        (let correctCalls = snd (correctText w (title p @ ''\<newline>\<newline>'' @ selftext p));
             st1 = fst (snd (getShortTitle w st (title p)));
             titleCalls = snd (snd (getShortTitle w st (title p)));
             segments = segmentsOf w p
         in case fst (getShortTitle w st (title p)) of
              None \<Rightarrow>
                (if segments = [] then Inr () else Inl TypeError, st1,
                 correctCalls @ titleCalls @ [DescribeCall (title p) (selftext p)])
            | Some shortTitle \<Rightarrow>
                (let st2 = fst (snd (generateDescription w st1 (title p) (selftext p) subredditFolder shortTitle));
                     describeCalls = snd (snd (generateDescription w st1 (title p) (selftext p) subredditFolder shortTitle))
                 in case processSegments w p subredditFolder shortTitle (length segments) 0 segments st2 of
                      (r, st3, calls) \<Rightarrow> (r, st3, correctCalls @ titleCalls @ describeCalls @ calls))))"

section \<open>\<open>processSubreddits\<close>\<close>

definition subreddits :: "(string \<times> string) list" where
  "subreddits =
     [(''AmItheAsshole'', ''top.json?t=all''),
      (''relationshipadvice'', ''top.json?t=all''),
      (''relationship_advice'', ''top.json?t=month'')]"

definition fetchRedditPosts :: "world \<Rightarrow> string \<Rightarrow> string \<Rightarrow> post list \<times> event list" where
  "fetchRedditPosts w subreddit sort_by =
     (case fetch_reply w subreddit sort_by of
        Some posts \<Rightarrow> (posts, [FetchCall subreddit sort_by])
      | None \<Rightarrow> ([], [FetchCall subreddit sort_by]))"

text \<open>The loop over the posts of one subreddit: \<open>await processPost\<close> stands in no
  \<open>try\<close>, so a rejection ends the loop.\<close>

fun processPosts :: "world \<Rightarrow> state \<Rightarrow> post list \<Rightarrow> string \<Rightarrow> (error + unit) \<times> state \<times> event list" where
  "processPosts w st [] subredditFolder = (Inr (), st, [])"
| "processPosts w st (p # ps) subredditFolder =
     (case processPost w st p subredditFolder of
        (Inl e, st1, calls1) \<Rightarrow> (Inl e, st1, calls1)
      | (Inr _, st1, calls1) \<Rightarrow>
          (case processPosts w st1 ps subredditFolder of
             (r, st2, calls2) \<Rightarrow> (r, st2, calls1 @ calls2)))"

fun processSubredditList ::
  "world \<Rightarrow> state \<Rightarrow> (string \<times> string) list \<Rightarrow> (error + unit) \<times> state \<times> event list" where
  "processSubredditList w st [] = (Inr (), st, [])"
| "processSubredditList w st ((subredditFolder, sort_by) # others) =
     (case processPosts w st (fst (fetchRedditPosts w subredditFolder sort_by)) subredditFolder of
        (Inl e, st1, calls1) \<Rightarrow>
          (Inl e, st1, snd (fetchRedditPosts w subredditFolder sort_by) @ calls1)
      | (Inr _, st1, calls1) \<Rightarrow>
          (case processSubredditList w st1 others of
             (r, st2, calls2) \<Rightarrow>
               (r, st2, snd (fetchRedditPosts w subredditFolder sort_by) @ calls1 @ calls2)))"

definition processSubreddits :: "world \<Rightarrow> state \<Rightarrow> (error + unit) \<times> state \<times> event list" where
  "processSubreddits w st = processSubredditList w st subreddits"

section \<open>\<open>splitVideo\<close>\<close>

text \<open>Files in the working directory: writing a file adds its name to the directory,
  \<open>unlinkSync\<close> takes it away, \<open>renameSync\<close> moves the content to the new name. A new
  name is put at the end of the list; the place of a name in the list matters only to
  the order, after the sort, of segment files with the same number.\<close>

definition add_entry :: "string \<Rightarrow> string list \<Rightarrow> string list" where
  "add_entry name entries = (if name \<in> set entries then entries else entries @ [name])"

definition write_cwd :: "state \<Rightarrow> string \<Rightarrow> artifact \<Rightarrow> state" where
  "write_cwd st name content =
     st\<lparr>files := (files st)(name \<mapsto> content), cwd := add_entry name (cwd st)\<rparr>"

definition unlink_cwd :: "state \<Rightarrow> string \<Rightarrow> state" where
  "unlink_cwd st name = st\<lparr>files := (files st)(name := None), cwd := removeAll name (cwd st)\<rparr>"

definition rename_cwd :: "state \<Rightarrow> string \<Rightarrow> string \<Rightarrow> state" where
  "rename_cwd st old new =
     st\<lparr>files := ((files st)(new := files st old))(old := None),
        cwd := add_entry new (removeAll old (cwd st))\<rparr>"

text \<open>The name of chunk \<open>i\<close>, from the output pattern \<open>segment_%d.mp4\<close>, and the files a
  cut writes, one after the other.\<close>

definition chunk_name :: "nat \<Rightarrow> string" where
  "chunk_name i = ''segment_'' @ show_nat i @ ''.mp4''"

definition chunk_names :: "nat \<Rightarrow> string list" where
  "chunk_names n = map chunk_name [0..<n]"

fun write_chunks :: "state \<Rightarrow> nat \<Rightarrow> real list \<Rightarrow> state" where
  "write_chunks st i [] = st"
| "write_chunks st i (d # ds) = write_chunks (write_cwd st (chunk_name i) (Video d)) (i + 1) ds"

text \<open>The list of segment files: the names in the working directory that start with
  \<open>segment_\<close> and end with \<open>.mp4\<close>.\<close>

definition endsWith :: "string \<Rightarrow> string \<Rightarrow> bool" where
  "endsWith s p = (length p \<le> length s \<and> drop (length s - length p) s = p)"

definition segment_files :: "string list \<Rightarrow> string list" where
  "segment_files entries =
     filter (\<lambda>file. startsWith file ''segment_'' \<and> endsWith file ''.mp4'') entries"

text \<open>\<open>parseInt(a.match(/segment_(\d+)\.mp4/)[1])\<close>: the digits of the leftmost match of
  the pattern, as a number; \<open>None\<close> when the name has no match, where \<open>match\<close> returns
  \<open>null\<close>.\<close>

definition is_digit :: "char \<Rightarrow> bool" where
  "is_digit c = (let n = (of_char c :: nat) in 48 \<le> n \<and> n \<le> 57)"

definition parse_digits :: "string \<Rightarrow> nat" where
  "parse_digits ds = foldl (\<lambda>n c. 10 * n + (of_char c - 48)) 0 ds"

definition number_here :: "string \<Rightarrow> nat option" where
  "number_here s =
     (if startsWith s ''segment_''
      then (let r = drop 8 s;
                ds = takeWhile is_digit r;
                after = dropWhile is_digit r
            in if ds \<noteq> [] \<and> startsWith after ''.mp4'' then Some (parse_digits ds) else None)
      else None)"

fun segment_number :: "string \<Rightarrow> nat option" where
  "segment_number [] = None"
| "segment_number (c # cs) =
     (case number_here (c # cs) of
        Some n \<Rightarrow> Some n
      | None \<Rightarrow> segment_number cs)"

text \<open>
  \<open>segments.sort(...)\<close>, a stable sort by the numbers. The comparator reads
  \<open>match(...)[1]\<close> of both names, so with two or more names a name without a match
  makes it throw a \<open>TypeError\<close>: \<open>None\<close>. A list of fewer than two names is never
  compared.
\<close>

definition sort_segments :: "string list \<Rightarrow> string list option" where
  "sort_segments segments =
     (if length segments > 1 \<and> (\<exists>file \<in> set segments. segment_number file = None) then None
      else Some (sort_key (\<lambda>file. case segment_number file of Some n \<Rightarrow> n | None \<Rightarrow> 0) segments))"

text \<open>The command \<open>ffmpeg -f concat -safe 0 -i concat_list.txt -c copy merged_last.mp4\<close>
  on the two files the list names: a stream copy of one after the other, as long as the
  two together. It fails when the world says so or a file is missing.\<close>

definition concat_copy :: "world \<Rightarrow> state \<Rightarrow> string \<Rightarrow> string \<Rightarrow> real option" where
  "concat_copy w st prevSegment lastSegment =
     (if concat_fails w then None
      else (case (files st prevSegment, files st lastSegment) of
              (Some (Video a), Some (Video b)) \<Rightarrow> Some (a + b)
            | _ \<Rightarrow> None))"

text \<open>
  The second half of the \<open>end\<close> handler: \<open>segments\<close> is the sorted list of the segment
  files. A probe that fails leaves \<open>lastDuration\<close> at 0; a merge that fails leaves the
  list as it was (and \<open>concat_list.txt\<close> behind).
\<close>

definition mergeLastSegment :: "world \<Rightarrow> state \<Rightarrow> string list \<Rightarrow> string list \<times> state \<times> event list" where
  "mergeLastSegment w st segments =
     (if length segments > 1
      then
        (let lastSegment = segments ! (length segments - 1);
             probed = getAudioDuration w st lastSegment;
             lastDuration = (case fst probed of Inl _ \<Rightarrow> 0 | Inr d \<Rightarrow> d)
         in if lastDuration < 30
            then
              (let prevSegment = segments ! (length segments - 2);
                   concatList = ''file '' @ [CHR 0x27] @ prevSegment @ [CHR 0x27, CHR 0x0A] @
                                ''file '' @ [CHR 0x27] @ lastSegment @ [CHR 0x27, CHR 0x0A];
                   st1 = write_cwd st ''concat_list.txt'' (TextFile concatList)
               in case concat_copy w st1 prevSegment lastSegment of
                    None \<Rightarrow> (segments, st1, snd probed @ [ConcatCall prevSegment lastSegment])
                  | Some merged \<Rightarrow>
                      (butlast segments,
                       unlink_cwd
                         (rename_cwd
                            (unlink_cwd
                               (unlink_cwd
                                  (write_cwd st1 ''merged_last.mp4'' (Video merged))
                                  prevSegment)
                               lastSegment)
                            ''merged_last.mp4'' prevSegment)
                         ''concat_list.txt'',
                       snd probed @ [ConcatCall prevSegment lastSegment]))
            else (segments, st, snd probed))
      else (segments, st, []))"

text \<open>
  \<open>splitVideo\<close>: the cut, then the list of the segment files in the working directory
  (the chunks just written and whatever segment file was there before), sorted by their
  numbers, then the merge. The promise rejects when the cut fails. When the sort throws,
  inside the \<open>async\<close> handler of \<open>end\<close>, the promise is never settled: the result
  \<open>None\<close>.
\<close>

definition splitVideo ::
  "world \<Rightarrow> state \<Rightarrow> string \<Rightarrow> real \<Rightarrow> (error + string list) option \<times> state \<times> event list" where
  "splitVideo w st inputPath segmentDuration =
     (case cut_reply w inputPath segmentDuration of
        None \<Rightarrow> (Some (Inl CutError), st, [CutCall inputPath segmentDuration])
      | Some durations \<Rightarrow>
          (case sort_segments (segment_files (cwd (write_chunks st 0 durations))) of
             None \<Rightarrow> (None, write_chunks st 0 durations, [CutCall inputPath segmentDuration])
           | Some segments \<Rightarrow>
               (case mergeLastSegment w (write_chunks st 0 durations) segments of
                  (merged, st1, calls) \<Rightarrow>
                    (Some (Inr merged), st1, CutCall inputPath segmentDuration # calls))))"

text \<open>The duration of the media file at a path.\<close>

definition duration_at :: "state \<Rightarrow> string \<Rightarrow> real option" where
  "duration_at st filePath =
     (case files st filePath of
        Some (Audio d) \<Rightarrow> Some d
      | Some (Video d) \<Rightarrow> Some d
      | _ \<Rightarrow> None)"

text \<open>The kinds of call.\<close>

fun is_asset_call :: "event \<Rightarrow> bool" where
  "is_asset_call (TtsCall _) = True"
| "is_asset_call (RenderCall _) = True"
| "is_asset_call (ProbeCall _) = True"
| "is_asset_call (EncodeCall _) = True"
| "is_asset_call (ShortenCall _) = True"
| "is_asset_call _ = False"

fun is_describe_call :: "event \<Rightarrow> bool" where
  "is_describe_call (DescribeCall _ _) = True"
| "is_describe_call _ = False"

fun is_upload_call :: "event \<Rightarrow> bool" where
  "is_upload_call (UploadCall _ _ _) = True"
| "is_upload_call _ = False"

fun is_split_call :: "event \<Rightarrow> bool" where
  "is_split_call (CutCall _ _) = True"
| "is_split_call (ConcatCall _ _) = True"
| "is_split_call _ = False"

fun uploaded_path :: "event \<Rightarrow> string option" where
  "uploaded_path (UploadCall videoPath _ _) = Some videoPath"
| "uploaded_path _ = None"

section \<open>A world for examples\<close>

text \<open>A world in which every call succeeds: the corrector and the title shortener
  return their input, a narration is 20 seconds long, the encoder honours \<open>-t\<close>.\<close>

definition quiet_world :: world where
  "quiet_world =
     \<lparr>fetch_reply = (\<lambda>_ _. Some []),
      correct_reply = (\<lambda>t. Some t),
      shorten_reply = (\<lambda>t. Some t),
      describe_reply = (\<lambda>_ _. Some ''about''),
      tts_reply = (\<lambda>_. TtsStreamEnds (Some 20)),
      render_reply = (\<lambda>_. True),
      probe_fails = (\<lambda>_. False),
      encode_reply = (\<lambda>r. Some (enc_t r)),
      upload_reply = (\<lambda>_ _. True),
      cut_reply = (\<lambda>_ _. Some []),
      concat_fails = False\<rparr>"

definition empty_state :: state where
  "empty_state = \<lparr>files = Map.empty, shortTitleCache = Map.empty, cwd = []\<rparr>"

definition four_chunks :: "real \<Rightarrow> real list" where
  "four_chunks d = [60, 60, 60, d]"

definition story :: "string \<Rightarrow> string \<Rightarrow> post" where
  "story t body =
     \<lparr>title = t, selftext = body, author = ''someone'',
      subreddit_name_prefixed = ''r/AmItheAsshole'', ups = 1, num_comments = 0\<rparr>"

text \<open>A state with a narration of 20 seconds, a caption image and a background clip of
  the given duration.\<close>

definition narrated :: "real \<Rightarrow> state" where
  "narrated background =
     empty_state\<lparr>files := [''bg.mp4'' \<mapsto> Video background, ''a.mp3'' \<mapsto> Audio 20,
                           ''s.png'' \<mapsto> Image]\<rparr>"
section \<open>Properties of the segmenter\<close>

subsection \<open>Splitting and joining\<close>

lemma no_space_takeWhile: "no_space (takeWhile (\<lambda>c. \<not> is_space c) s)"
  by (induction s) (auto simp: no_space_def)

lemma takeWhile_no_space: "no_space w \<Longrightarrow> takeWhile (\<lambda>c. \<not> is_space c) (w @ r) = w @ takeWhile (\<lambda>c. \<not> is_space c) r"
  by (induction w) (auto simp: no_space_def)

lemma dropWhile_no_space: "no_space w \<Longrightarrow> dropWhile (\<lambda>c. \<not> is_space c) (w @ r) = dropWhile (\<lambda>c. \<not> is_space c) r"
  by (induction w) (auto simp: no_space_def)

lemma space_is_space: "is_space CHR '' ''"
  by (simp add: is_space_def)

lemma split_ws_no_space: "no_space w \<Longrightarrow> split_ws w = [w]"
  using takeWhile_no_space[of w "[]"] dropWhile_no_space[of w "[]"]
  by (subst split_ws.simps) (simp add: Let_def)

lemma split_ws_cons: "no_space w \<Longrightarrow> split_ws (w @ CHR '' '' # r) = w # split_ws (dropWhile is_space r)"
  using takeWhile_no_space[of w "CHR '' '' # r"] dropWhile_no_space[of w "CHR '' '' # r"]
  by (subst split_ws.simps) (simp add: Let_def space_is_space)

lemma inner_ok_join: "inner_ok ws \<Longrightarrow> dropWhile is_space (join_sp ws) = join_sp ws \<and> split_ws (join_sp ws) = ws"
proof (induction ws rule: join_sp.induct)
  case 1
  then show ?case by simp
next
  case (2 w)
  then have "no_space w" by simp
  then have "dropWhile is_space w = w" by (cases w) (auto simp: no_space_def)
  with \<open>no_space w\<close> show ?case by (simp add: split_ws_no_space)
next
  case (3 w v ws)
  then have w: "w \<noteq> []" "no_space w" and rest: "inner_ok (v # ws)" by simp_all
  from w have "\<not> is_space (hd w)" by (cases w) (auto simp: no_space_def)
  with w have "dropWhile is_space (w @ CHR '' '' # join_sp (v # ws)) = w @ CHR '' '' # join_sp (v # ws)"
    by (cases w) auto
  moreover have "split_ws (w @ CHR '' '' # join_sp (v # ws)) = w # v # ws"
    using "3.IH"[OF rest] w by (simp add: split_ws_cons)
  ultimately show ?case by simp
qed

lemma split_join: "tokens_ok ws \<Longrightarrow> split_ws (join_sp ws) = ws"
proof (cases ws)
  case Nil
  assume "tokens_ok ws"
  with Nil show ?thesis by (simp add: tokens_ok_def)
next
  case (Cons w vs)
  assume ok: "tokens_ok ws"
  show ?thesis
  proof (cases vs)
    case Nil
    with ok Cons show ?thesis by (simp add: tokens_ok_def split_ws_no_space)
  next
    case (Cons v us)
    with ok \<open>ws = w # vs\<close> have w: "no_space w" and i: "inner_ok (v # us)"
      by (simp_all add: tokens_ok_def)
    show ?thesis using inner_ok_join[OF i] w Cons \<open>ws = w # vs\<close>
      by (simp add: split_ws_cons)
  qed
qed

lemma dropWhile_space_hd: "dropWhile is_space r = [] \<or> \<not> is_space (hd (dropWhile is_space r))"
  using hd_dropWhile[of is_space r] by blast

lemma takeWhile_nonempty: "s \<noteq> [] \<Longrightarrow> \<not> is_space (hd s) \<Longrightarrow> takeWhile (\<lambda>c. \<not> is_space c) s \<noteq> []"
  by (cases s) simp_all

lemma split_ws_last: "dropWhile (\<lambda>c. \<not> is_space c) s = [] \<Longrightarrow> split_ws s = [takeWhile (\<lambda>c. \<not> is_space c) s]"
  by (subst split_ws.simps) (simp only: Let_def refl if_True)

lemma split_ws_more: "dropWhile (\<lambda>c. \<not> is_space c) s \<noteq> [] \<Longrightarrow>
   split_ws s = takeWhile (\<lambda>c. \<not> is_space c) s # split_ws (dropWhile is_space (dropWhile (\<lambda>c. \<not> is_space c) s))"
  by (subst split_ws.simps) (simp only: Let_def if_False)

lemma inner_ok_Cons: "w \<noteq> [] \<Longrightarrow> no_space w \<Longrightarrow> inner_ok vs \<Longrightarrow> inner_ok (w # vs)"
  by (cases vs) simp_all

lemma split_ws_inner: "s = [] \<or> \<not> is_space (hd s) \<Longrightarrow> inner_ok (split_ws s)"
proof (induction s rule: split_ws.induct)
  case (1 s)
  let ?w = "takeWhile (\<lambda>c. \<not> is_space c) s"
  let ?r = "dropWhile (\<lambda>c. \<not> is_space c) s"
  show ?case
  proof (cases "?r = []")
    case True
    show ?thesis
      unfolding split_ws_last[OF True] by (simp only: inner_ok.simps no_space_takeWhile)
  next
    case False
    then have "s \<noteq> []" by (cases s) simp_all
    with "1.prems" have "\<not> is_space (hd s)" by blast
    with \<open>s \<noteq> []\<close> have wne: "?w \<noteq> []" by (rule takeWhile_nonempty)
    have ih: "inner_ok (split_ws (dropWhile is_space ?r))"
      by (rule "1.IH"[OF refl refl False dropWhile_space_hd])
    show ?thesis
      unfolding split_ws_more[OF False]
      by (rule inner_ok_Cons[OF wne no_space_takeWhile ih])
  qed
qed

lemma split_ws_ok: "tokens_ok (split_ws s)"
proof (cases "dropWhile (\<lambda>c. \<not> is_space c) s = []")
  case True
  show ?thesis
    unfolding split_ws_last[OF True] by (simp add: tokens_ok_def no_space_takeWhile)
next
  case False
  have "inner_ok (split_ws (dropWhile is_space (dropWhile (\<lambda>c. \<not> is_space c) s)))"
    by (rule split_ws_inner[OF dropWhile_space_hd])
  then show ?thesis
    unfolding split_ws_more[OF False] by (simp add: tokens_ok_def no_space_takeWhile)
qed

lemma split_ws_nonempty: "split_ws s \<noteq> []"
  using split_ws_ok[of s] by (auto simp: tokens_ok_def)


lemma split_ws_space: "is_space c \<Longrightarrow> split_ws (c # cs) = [] # split_ws (dropWhile is_space cs)"
  by (subst split_ws.simps) (simp add: Let_def)

lemma split_ws_nonspace:
  assumes "\<not> is_space c"
  shows "split_ws (c # cs) = (c # hd (split_ws cs)) # tl (split_ws cs)"
proof (cases "dropWhile (\<lambda>c. \<not> is_space c) cs = []")
  case True
  with assms have "dropWhile (\<lambda>c. \<not> is_space c) (c # cs) = []" by simp
  from split_ws_last[OF this] split_ws_last[OF True] assms show ?thesis by simp
next
  case False
  with assms have "dropWhile (\<lambda>c. \<not> is_space c) (c # cs) \<noteq> []" by simp
  from split_ws_more[OF this] split_ws_more[OF False] assms show ?thesis by simp
qed

lemma join_sp_Cons: "ws \<noteq> [] \<Longrightarrow> join_sp (w # ws) = w @ CHR '' '' # join_sp ws"
  by (cases ws) simp_all

lemma join_split: "join_sp (split_ws s) = normalize_ws s"
proof (induction s rule: normalize_ws.induct)
  case 1
  show ?case by (simp add: split_ws_last)
next
  case (2 c)
  show ?case
  proof (cases "is_space c")
    case True
    then show ?thesis by (simp add: split_ws_space split_ws_last)
  next
    case False
    then show ?thesis by (simp add: split_ws_last)
  qed
next
  case (3 c d cs)
  let ?X = "split_ws (d # cs)"
  have X: "?X \<noteq> []" by (rule split_ws_nonempty)
  show ?case
  proof (cases "is_space c")
    case c: True
    show ?thesis
    proof (cases "is_space d")
      case True
      with c have "split_ws (c # d # cs) = split_ws (d # cs)"
        by (simp add: split_ws_space)
      with c True "3.IH"(1) show ?thesis by simp
    next
      case False
      with c have "split_ws (c # d # cs) = [] # ?X"
        by (simp add: split_ws_space)
      with c False "3.IH"(2) X show ?thesis by (simp add: join_sp_Cons)
    qed
  next
    case False
    then have eq: "split_ws (c # d # cs) = (c # hd ?X) # tl ?X"
      by (rule split_ws_nonspace)
    have "join_sp ((c # hd ?X) # tl ?X) = c # join_sp (hd ?X # tl ?X)"
      by (cases "tl ?X") simp_all
    with X have "join_sp (split_ws (c # d # cs)) = c # join_sp ?X"
      by (simp add: eq)
    with False "3.IH"(3) show ?thesis by simp
  qed
qed

lemma normalize_ws_idem: "normalize_ws (normalize_ws s) = normalize_ws s"
  using split_join[OF split_ws_ok, of s] join_split[of "join_sp (split_ws s)"]
  by (simp add: join_split)


subsection \<open>Groups of words\<close>

lemma inner_ok_prefix: "inner_ok (xs @ ys) \<Longrightarrow> xs \<noteq> [] \<Longrightarrow> inner_ok xs"
proof (induction xs rule: inner_ok.induct)
  case 1
  then show ?case by simp
next
  case (2 w)
  then show ?case by (cases ys) simp_all
next
  case (3 w v ws)
  then show ?case by simp
qed

lemma inner_ok_suffix: "inner_ok (xs @ ys) \<Longrightarrow> ys \<noteq> [] \<Longrightarrow> inner_ok ys"
proof (induction xs)
  case Nil
  then show ?case by simp
next
  case (Cons x xs)
  then have "inner_ok (x # (xs @ ys))" "xs @ ys \<noteq> []" by simp_all
  then have "inner_ok (xs @ ys)" by (cases "xs @ ys") simp_all
  with Cons show ?case by simp
qed

lemma inner_ok_tokens_ok: "inner_ok ws \<Longrightarrow> tokens_ok ws"
  by (induction ws rule: inner_ok.induct) (simp_all add: tokens_ok_def)

lemma tokens_ok_part:
  assumes "tokens_ok (pre @ g @ post)" and "g \<noteq> []"
  shows "tokens_ok g"
proof (cases pre)
  case Nil
  from assms(2) obtain w g' where g: "g = w # g'" by (cases g) auto
  show ?thesis
  proof (cases "g' = []")
    case True
    with assms(1) Nil g show ?thesis by (simp add: tokens_ok_def)
  next
    case False
    with assms(1) Nil g have "no_space w" "inner_ok (g' @ post)"
      by (simp_all add: tokens_ok_def)
    with False g show ?thesis
      by (simp add: tokens_ok_def inner_ok_prefix)
  qed
next
  case (Cons p pre')
  with assms have "inner_ok (pre' @ g @ post)" by (simp add: tokens_ok_def)
  with assms(2) have "inner_ok (g @ post)" by (simp add: inner_ok_suffix)
  then have "inner_ok g" using assms(2) by (rule inner_ok_prefix)
  then show ?thesis by (rule inner_ok_tokens_ok)
qed

lemma tokens_ok_group:
  assumes "tokens_ok (concat gs)" and "g \<in> set gs" and "g \<noteq> []"
  shows "tokens_ok g"
proof -
  from assms(2) obtain as bs where "gs = as @ g # bs" by (auto simp: in_set_conv_decomp)
  with assms(1) have "tokens_ok (concat as @ g @ concat bs)" by simp
  then show ?thesis using assms(3) by (rule tokens_ok_part)
qed

text \<open>The loop, on groups of words.\<close>

lemma segment_step_groups:
  "segment_step m (map join_sp gs, cur) w =
     (map join_sp (fst (group_step m (gs, cur) w)), snd (group_step m (gs, cur) w))"
  by (simp add: segment_step_def group_step_def Let_def)

lemma segment_foldl_groups:
  "foldl (segment_step m) (map join_sp gs, cur) ws =
     (map join_sp (fst (foldl (group_step m) (gs, cur) ws)), snd (foldl (group_step m) (gs, cur) ws))"
proof (induction ws arbitrary: gs cur)
  case Nil
  show ?case by simp
next
  case (Cons w ws)
  show ?case
    using Cons.IH[of "fst (group_step m (gs, cur) w)" "snd (group_step m (gs, cur) w)"]
    by (simp add: segment_step_groups)
qed

lemma group_foldl_inv:
  "list_all (closed_ok m) gs \<Longrightarrow>
   list_all (closed_ok m) (fst (foldl (group_step m) (gs, cur) ws)) \<and>
   concat (fst (foldl (group_step m) (gs, cur) ws)) @ snd (foldl (group_step m) (gs, cur) ws)
     = concat gs @ cur @ ws"
proof (induction ws arbitrary: gs cur)
  case Nil
  then show ?case by simp
next
  case (Cons w ws)
  show ?case
  proof (cases "int (length (cur @ [w])) \<ge> m \<and> ends_sentence w")
    case True
    then have st: "group_step m (gs, cur) w = (gs @ [cur @ [w]], [])"
      by (simp add: group_step_def Let_def)
    from True have "closed_ok m (cur @ [w])"
      by (simp add: closed_ok_def)
    with Cons.prems have "list_all (closed_ok m) (gs @ [cur @ [w]])"
      by simp
    from Cons.IH[OF this, of "[]"] show ?thesis by (simp add: st)
  next
    case False
    then have st: "group_step m (gs, cur) w = (gs, cur @ [w])"
      by (auto simp add: group_step_def Let_def)
    from Cons.IH[OF Cons.prems, of "cur @ [w]"] show ?thesis by (simp add: st)
  qed
qed

lemma join_sp_append:
  "xs \<noteq> [] \<Longrightarrow> ys \<noteq> [] \<Longrightarrow> join_sp (xs @ ys) = join_sp xs @ CHR '' '' # join_sp ys"
proof (induction xs rule: join_sp.induct)
  case 1
  then show ?case by simp
next
  case (2 w)
  then show ?case by (simp add: join_sp_Cons)
next
  case (3 w v ws)
  then show ?case by simp
qed

lemma update_last: "xs \<noteq> [] \<Longrightarrow> xs[length xs - 1 := v] = butlast xs @ [v]"
  by (induction xs rule: rev_induct) simp_all

lemma segment_rest_groups:
  assumes "list_all (\<lambda>g. g \<noteq> []) gs"
  shows "segment_rest m (map join_sp gs, cur) = map join_sp (group_rest m (gs, cur))"
proof (cases "cur \<noteq> [] \<and> gs \<noteq> [] \<and> int (length cur) < m")
  case True
  then have gs: "gs = butlast gs @ [last gs]" by simp
  from True assms have l: "last gs \<noteq> []" by (simp add: list_all_iff)
  from True have "map join_sp gs ! (length gs - 1) = join_sp (last gs)"
    by (simp add: last_conv_nth)
  moreover from True have "(map join_sp gs)[length gs - 1 := v] = map join_sp (butlast gs) @ [v]" for v
    using update_last[of "map join_sp gs" v] by (simp add: map_butlast)
  ultimately have "(map join_sp gs)[length gs - 1 := map join_sp gs ! (length gs - 1) @ '' '' @ join_sp cur]
        = map join_sp (butlast gs) @ [join_sp (last gs) @ '' '' @ join_sp cur]"
    by simp
  with True l show ?thesis
    by (simp add: segment_rest_def group_rest_def Let_def join_sp_append)
next
  case False
  then show ?thesis
    by (auto simp add: segment_rest_def group_rest_def Let_def)
qed

lemma group_rest_concat: "concat (group_rest m (gs, cur)) = concat gs @ cur"
proof (cases "gs = []")
  case True
  then show ?thesis by (simp add: group_rest_def)
next
  case False
  then have "concat gs = concat (butlast gs) @ last gs"
    by (metis append_butlast_last_id concat.simps concat_append append_Nil2)
  then show ?thesis by (simp add: group_rest_def)
qed

lemma split_groups: "splitTextIntoSegments text m = map join_sp (groups text m)"
proof -
  have inv: "list_all (closed_ok m) (fst (foldl (group_step m) ([], []) (split_ws text)))"
    using group_foldl_inv[of m "[]" "[]" "split_ws text"] by simp
  then have ne: "list_all (\<lambda>g. g \<noteq> []) (fst (foldl (group_step m) ([], []) (split_ws text)))"
    by (simp add: list_all_iff closed_ok_def)
  show ?thesis
    using segment_foldl_groups[of m "[]" "[]" "split_ws text"] segment_rest_groups[OF ne, of m]
    by (simp add: splitTextIntoSegments_def segment_loop_def groups_def)
qed

lemma groups_concat: "concat (groups text m) = split_ws text"
  using group_foldl_inv[of m "[]" "[]" "split_ws text"]
  by (simp add: groups_def group_rest_concat[of m "fst x" "snd x" for x, simplified])


lemma groups_closed:
  "list_all (closed_ok m) (butlast (groups text m)) \<and> list_all (\<lambda>g. g \<noteq> []) (groups text m)"
proof -
  let ?R = "foldl (group_step m) ([], []) (split_ws text)"
  have inv: "list_all (closed_ok m) (fst ?R)"
    using group_foldl_inv[of m "[]" "[]" "split_ws text"] by simp
  then have b: "list_all (closed_ok m) (butlast (fst ?R))"
    by (auto simp: list_all_iff dest: in_set_butlastD)
  from inv have ne: "list_all (\<lambda>g. g \<noteq> []) (fst ?R)"
    by (simp add: list_all_iff closed_ok_def)
  then have "list_all (\<lambda>g. g \<noteq> []) (butlast (fst ?R))"
    by (auto simp: list_all_iff dest: in_set_butlastD)
  with inv b ne show ?thesis
    by (simp add: groups_def group_rest_def)
qed

lemma wordCount_group:
  assumes "g \<in> set (groups text m)"
  shows "wordCount (join_sp g) = length g"
proof -
  from assms groups_closed[of m "text"] have "g \<noteq> []" by (auto simp: list_all_iff)
  have "tokens_ok (concat (groups text m))" by (simp add: groups_concat split_ws_ok)
  then have "tokens_ok g" using assms \<open>g \<noteq> []\<close> by (rule tokens_ok_group)
  then show ?thesis by (simp add: wordCount_def split_join)
qed

lemma join_sp_concat:
  "list_all (\<lambda>g. g \<noteq> []) gs \<Longrightarrow> join_sp (map join_sp gs) = join_sp (concat gs)"
proof (induction gs)
  case Nil
  show ?case by simp
next
  case (Cons g gs)
  show ?case
  proof (cases "gs = []")
    case True
    then show ?thesis by simp
  next
    case False
    with Cons.prems have "concat gs \<noteq> []" by (cases gs) auto
    with Cons False show ?thesis by (simp add: join_sp_Cons join_sp_append)
  qed
qed

subsection \<open>The pieces of the segments, and the segments joined\<close>

text \<open>
  The count of the source, \<open>split(/\s+/).length\<close>, which takes an empty first or last
  piece for a word: the counts of the segments add up to the count of the text, and
  every segment but the last has at least \<open>m\<close> pieces.
\<close>

lemma segments_piece_count:
  "sum_list (map wordCount (splitTextIntoSegments text m)) = wordCount text \<and>
   (\<forall>seg \<in> set (butlast (splitTextIntoSegments text m)). m \<le> int (wordCount seg))"
proof
  have "map wordCount (splitTextIntoSegments text m) = map length (groups text m)"
    by (simp add: split_groups wordCount_group)
  then have "sum_list (map wordCount (splitTextIntoSegments text m)) = length (concat (groups text m))"
    by (simp add: length_concat)
  then show "sum_list (map wordCount (splitTextIntoSegments text m)) = wordCount text"
    by (simp add: groups_concat wordCount_def)
next
  show "\<forall>seg \<in> set (butlast (splitTextIntoSegments text m)). m \<le> int (wordCount seg)"
  proof
    fix seg assume "seg \<in> set (butlast (splitTextIntoSegments text m))"
    then obtain g where g: "g \<in> set (butlast (groups text m))" and seg: "seg = join_sp g"
      by (auto simp: split_groups map_butlast[symmetric])
    from g have "g \<in> set (groups text m)" by (rule in_set_butlastD)
    then have "wordCount seg = length g" by (simp add: seg wordCount_group)
    moreover from g groups_closed[of m "text"] have "m \<le> int (length g)"
      by (auto simp: list_all_iff closed_ok_def)
    ultimately show "m \<le> int (wordCount seg)" by simp
  qed
qed

text \<open>
  Claim C5. Joining the segments with single spaces gives the text with every run of
  white space replaced by one space, so the two are equal up to white-space
  normalisation; and there is at least one segment. This holds for every text, the
  empty one included (its one segment is the empty string).
\<close>

theorem segments_rejoin:
  "join_sp (splitTextIntoSegments text m) = normalize_ws text \<and>
   normalize_ws (join_sp (splitTextIntoSegments text m)) = normalize_ws text \<and>
   length (splitTextIntoSegments text m) \<ge> 1"
proof -
  have j: "join_sp (splitTextIntoSegments text m) = normalize_ws text"
    using groups_closed[of m "text"]
    by (simp add: split_groups join_sp_concat groups_concat join_split)
  have "groups text m \<noteq> []"
    using groups_concat[of "text" m] split_ws_nonempty[of "text"] by auto
  then have "length (splitTextIntoSegments text m) \<ge> 1"
    by (cases "groups text m") (simp_all add: split_groups)
  with j show ?thesis by (simp add: normalize_ws_idem)
qed

theorem segments_rejoin_witness:
  "join_sp (splitTextIntoSegments ''a b  c.  d e f. g'' 3) = ''a b c. d e f. g'' \<and>
   splitTextIntoSegments ''a b  c.  d e f. g'' 3 = [''a b c.'', ''d e f. g'']"
proof -
  have "normalize_ws ''a b  c.  d e f. g'' = ''a b c. d e f. g''"
    by code_simp
  moreover have "splitTextIntoSegments ''a b  c.  d e f. g'' 3 = [''a b c.'', ''d e f. g'']"
    by code_simp
  ultimately show ?thesis
    using segments_rejoin[of "''a b  c.  d e f. g''" 3] by simp
qed

lemma group_foldl_short:
  "int (length cur + length ws) < m \<Longrightarrow> foldl (group_step m) (gs, cur) ws = (gs, cur @ ws)"
proof (induction ws arbitrary: cur)
  case Nil
  show ?case by simp
next
  case (Cons w ws)
  then have "group_step m (gs, cur) w = (gs, cur @ [w])"
    by (simp add: group_step_def Let_def)
  with Cons.IH[of "cur @ [w]"] Cons.prems show ?case by simp
qed

subsection \<open>Words that are not empty\<close>

lemma countWords_group:
  assumes "g \<in> set (groups text m)"
  shows "countWords (join_sp g) = length (filter (\<lambda>w. w \<noteq> []) g)"
proof -
  from assms groups_closed[of m "text"] have "g \<noteq> []" by (auto simp: list_all_iff)
  have "tokens_ok (concat (groups text m))" by (simp add: groups_concat split_ws_ok)
  then have "tokens_ok g" using assms \<open>g \<noteq> []\<close> by (rule tokens_ok_group)
  then show ?thesis by (simp add: countWords_def split_join)
qed

text \<open>The words of the segments are the words of the text.\<close>

lemma segments_words_total:
  "sum_list (map countWords (splitTextIntoSegments text m)) = countWords text"
proof -
  have "map countWords (splitTextIntoSegments text m) =
          map (\<lambda>g. length (filter (\<lambda>w. w \<noteq> []) g)) (groups text m)"
    by (simp add: split_groups countWords_group)
  then have "sum_list (map countWords (splitTextIntoSegments text m)) =
          length (filter (\<lambda>w. w \<noteq> []) (concat (groups text m)))"
    by (simp add: filter_concat length_concat comp_def)
  then show ?thesis by (simp add: groups_concat countWords_def)
qed

lemma inner_ok_butlast: "inner_ok ws \<Longrightarrow> w \<in> set (butlast ws) \<Longrightarrow> w \<noteq> []"
  by (induction ws rule: inner_ok.induct) (auto split: if_splits)

lemma butlast_member:
  assumes "g \<in> set (butlast gs)"
  shows "\<exists>as bs. gs = as @ g # bs \<and> bs \<noteq> []"
proof -
  from assms have ne: "gs \<noteq> []" by auto
  from assms obtain as cs where "butlast gs = as @ g # cs" by (auto simp: in_set_conv_decomp)
  with ne have "gs = as @ g # (cs @ [last gs])"
    using append_butlast_last_id[OF ne] by simp
  then show ?thesis by blast
qed

text \<open>In a text that does not begin with white space, every segment but the last has
  at least \<open>m\<close> words.\<close>

lemma segments_full_words:
  assumes "text = [] \<or> \<not> is_space (hd text)"
      and "seg \<in> set (butlast (splitTextIntoSegments text m))"
  shows "m \<le> int (countWords seg)"
proof -
  from assms(2) obtain g where g: "g \<in> set (butlast (groups text m))" and seg: "seg = join_sp g"
    by (auto simp: split_groups map_butlast[symmetric])
  from butlast_member[OF g] obtain as bs where gs: "groups text m = as @ g # bs" and bs: "bs \<noteq> []"
    by blast
  from groups_closed[of m "text"] gs bs have "concat bs \<noteq> []"
    by (cases bs) (auto simp: list_all_iff)
  moreover have "concat (groups text m) = (concat as @ g) @ concat bs"
    by (simp add: gs)
  ultimately have "butlast (concat (groups text m)) = (concat as @ g) @ butlast (concat bs)"
    by (metis butlast_append)
  then have "set g \<subseteq> set (butlast (split_ws text))"
    by (auto simp: groups_concat)
  with inner_ok_butlast[OF split_ws_inner[OF assms(1)]] have "filter (\<lambda>w. w \<noteq> []) g = g"
    by (auto simp: filter_id_conv)
  moreover from g have "g \<in> set (groups text m)" by (rule in_set_butlastD)
  ultimately have "countWords seg = length g" by (simp add: seg countWords_group)
  moreover from g groups_closed[of m "text"] have "m \<le> int (length g)"
    by (auto simp: list_all_iff closed_ok_def)
  ultimately show ?thesis by simp
qed

lemma inner_ok_count: "inner_ok vs \<Longrightarrow> length vs \<le> length (filter (\<lambda>w. w \<noteq> []) vs) + 1"
  by (induction vs rule: inner_ok.induct) auto

lemma tokens_ok_count: "tokens_ok ws \<Longrightarrow> length ws \<le> length (filter (\<lambda>w. w \<noteq> []) ws) + 2"
  using inner_ok_count by (cases ws) (fastforce simp: tokens_ok_def)+

lemma group_foldl_first:
  "foldl (group_step m) ([], cur) ws = ([], cur @ ws) \<or>
   (\<exists>pre post. cur @ ws = pre @ post \<and> pre \<noteq> [] \<and> ends_sentence (last pre) \<and>
      m \<le> int (length pre) \<and>
      foldl (group_step m) ([], cur) ws = foldl (group_step m) ([pre], []) post)"
proof (induction ws arbitrary: cur)
  case Nil
  show ?case by simp
next
  case (Cons w ws)
  show ?case
  proof (cases "m \<le> int (length (cur @ [w])) \<and> ends_sentence w")
    case True
    then have "group_step m ([], cur) w = ([cur @ [w]], [])"
      by (simp add: group_step_def Let_def)
    with True have "(cur @ w # ws = (cur @ [w]) @ ws \<and> cur @ [w] \<noteq> [] \<and> ends_sentence (last (cur @ [w])) \<and>
      m \<le> int (length (cur @ [w])) \<and>
      foldl (group_step m) ([], cur) (w # ws) = foldl (group_step m) ([cur @ [w]], []) ws)"
      by simp
    then show ?thesis by blast
  next
    case False
    then have "group_step m ([], cur) w = ([], cur @ [w])"
      by (auto simp: group_step_def Let_def)
    with Cons.IH[of "cur @ [w]"] show ?thesis by simp
  qed
qed

text \<open>A text with fewer than \<open>m\<close> words gives one segment: its words, joined by single
  spaces.\<close>

lemma segments_few_words:
  assumes "int (countWords text) < m"
  shows "splitTextIntoSegments text m = [normalize_ws text]"
proof -
  let ?ws = "split_ws text"
  have "groups text m = [?ws]"
    using group_foldl_first[of m "[]" ?ws]
  proof (elim disjE exE conjE)
    assume "foldl (group_step m) ([], []) ?ws = ([], [] @ ?ws)"
    then show ?thesis by (simp add: groups_def group_rest_def split_ws_nonempty)
  next
    fix pre post
    assume ws: "[] @ ?ws = pre @ post" and ne: "pre \<noteq> []" and e: "ends_sentence (last pre)"
      and m: "m \<le> int (length pre)"
      and f: "foldl (group_step m) ([], []) ?ws = foldl (group_step m) ([pre], []) post"
    from ne e have "last pre \<in> set (filter (\<lambda>w. w \<noteq> []) ?ws)"
      using ws by (auto simp: ends_sentence_def)
    then have "1 \<le> countWords text"
      by (cases "filter (\<lambda>w. w \<noteq> []) ?ws") (auto simp: countWords_def)
    with assms have m2: "2 \<le> m" by simp
    from tokens_ok_count[OF split_ws_ok, of "text"] ws
    have "length pre + length post \<le> countWords text + 2"
      by (simp add: countWords_def)
    with assms m have "length post \<le> 1" by simp
    with m2 have short: "int (length ([] :: string list) + length post) < m" by simp
    from group_foldl_short[OF short, of "[pre]"] f
    have "foldl (group_step m) ([], []) ?ws = ([pre], post)" by simp
    with short ws show ?thesis by (simp add: groups_def group_rest_def)
  qed
  then show ?thesis by (simp add: split_groups join_split)
qed

lemma last_split_ws: "s \<noteq> [] \<Longrightarrow> \<not> is_space (last s) \<Longrightarrow> last (split_ws s) \<noteq> []"
proof (induction s rule: split_ws.induct)
  case (1 s)
  let ?w = "takeWhile (\<lambda>c. \<not> is_space c) s"
  let ?r = "dropWhile (\<lambda>c. \<not> is_space c) s"
  let ?s' = "dropWhile is_space ?r"
  show ?case
  proof (cases "?r = []")
    case True
    then have eq: "?w = s" by (metis append_Nil2 takeWhile_dropWhile_id)
    have "?w \<noteq> []" unfolding eq by (rule "1.prems"(1))
    then show ?thesis by (simp only: split_ws_last[OF True] last.simps refl if_True not_False_eq_True)
  next
    case False
    have "last (?w @ ?r) = last ?r" using False by (rule last_appendR)
    then have lr: "last s = last ?r" by (simp only: takeWhile_dropWhile_id)
    have ne: "?s' \<noteq> []"
    proof
      assume e: "?s' = []"
      then have "\<forall>c \<in> set ?r. is_space c" by (simp only: dropWhile_eq_Nil_conv)
      with False have "is_space (last ?r)" using last_in_set by blast
      with lr "1.prems"(2) show False by simp
    qed
    have "last (takeWhile is_space ?r @ ?s') = last ?s'" using ne by (rule last_appendR)
    then have "last ?r = last ?s'" by (simp only: takeWhile_dropWhile_id)
    with lr "1.prems"(2) have "\<not> is_space (last ?s')" by simp
    with "1.IH"[OF refl refl False ne] have "last (split_ws ?s') \<noteq> []" by blast
    moreover have "last (split_ws s) = last (split_ws ?s')"
      by (simp only: split_ws_more[OF False] last.simps split_ws_nonempty if_False)
    ultimately show ?thesis by simp
  qed
qed

lemma split_ws_tail:
  assumes "text = [] \<or> \<not> is_space (last text)" and "w \<in> set (tl (split_ws text))"
  shows "w \<noteq> []"
proof -
  from assms(2) have two: "tl (split_ws text) \<noteq> []" by auto
  have "text \<noteq> []"
  proof
    assume "text = []"
    then have "split_ws text = [[]]" by (simp add: split_ws_last)
    with two show False by simp
  qed
  with assms(1) have l: "last (split_ws text) \<noteq> []" by (simp add: last_split_ws)
  from split_ws_ok[of "text"] two have inner: "inner_ok (tl (split_ws text))"
    by (cases "split_ws text") (auto simp: tokens_ok_def)
  from two have "last (tl (split_ws text)) = last (split_ws text)"
    by (cases "split_ws text") auto
  with l have "last (tl (split_ws text)) \<noteq> []" by simp
  moreover have "w \<in> set (butlast (tl (split_ws text))) \<or> w = last (tl (split_ws text))"
    using assms(2) two by (metis append_butlast_last_id rotate1.simps(2) set_ConsD set_rotate1)
  ultimately show ?thesis using inner_ok_butlast[OF inner] by auto
qed

text \<open>When there are two segments or more, the last one has at least \<open>m\<close> pieces.\<close>

lemma last_group_length:
  assumes "length (groups text m) \<ge> 2"
  shows "m \<le> int (length (last (groups text m)))"
proof -
  let ?R = "foldl (group_step m) ([], []) (split_ws text)"
  have inv: "list_all (closed_ok m) (fst ?R)"
    using group_foldl_inv[of m "[]" "[]" "split_ws text"] by simp
  show ?thesis
  proof (cases "snd ?R = []")
    case True
    then have g: "groups text m = fst ?R" by (simp add: groups_def group_rest_def)
    with assms have "fst ?R \<noteq> []" by auto
    then have "last (fst ?R) \<in> set (fst ?R)" by simp
    with inv g show ?thesis by (auto simp: list_all_iff closed_ok_def)
  next
    case False
    show ?thesis
    proof (cases "fst ?R \<noteq> [] \<and> int (length (snd ?R)) < m")
      case True
      with False have g: "groups text m = butlast (fst ?R) @ [last (fst ?R) @ snd ?R]"
        by (simp add: groups_def group_rest_def)
      from True have "last (fst ?R) \<in> set (fst ?R)" by simp
      with inv have "m \<le> int (length (last (fst ?R)))" by (auto simp: list_all_iff closed_ok_def)
      with g show ?thesis by simp
    next
      case c: False
      with False have g: "groups text m = fst ?R @ [snd ?R]"
        by (auto simp: groups_def group_rest_def)
      with assms have "fst ?R \<noteq> []" by auto
      with c have "m \<le> int (length (snd ?R))" by simp
      with g show ?thesis by simp
    qed
  qed
qed

lemma last_group_tail:
  assumes "length (groups text m) \<ge> 2"
  shows "set (last (groups text m)) \<subseteq> set (tl (split_ws text))"
proof -
  from assms have ne: "groups text m \<noteq> []" by auto
  then have gs: "groups text m = butlast (groups text m) @ [last (groups text m)]" by simp
  from assms have "butlast (groups text m) \<noteq> []"
    by (cases "groups text m" rule: rev_cases) auto
  moreover from groups_closed[of m "text"] have "\<forall>g \<in> set (butlast (groups text m)). g \<noteq> []"
    by (auto simp: list_all_iff closed_ok_def)
  ultimately have c: "concat (butlast (groups text m)) \<noteq> []"
    by (cases "butlast (groups text m)") auto
  have "split_ws text = concat (butlast (groups text m)) @ last (groups text m)"
    using groups_concat[of "text" m] gs by (metis concat.simps(1,2) concat_append append_Nil2)
  with c have "tl (split_ws text) = tl (concat (butlast (groups text m))) @ last (groups text m)"
    by simp
  then show ?thesis by simp
qed

text \<open>In a text that does not end with white space, no segment is left short at the
  end: when there are two segments or more, the last one has at least \<open>m\<close> words.\<close>

lemma segments_last_words:
  assumes "text = [] \<or> \<not> is_space (last text)"
      and "length (splitTextIntoSegments text m) \<ge> 2"
  shows "m \<le> int (countWords (last (splitTextIntoSegments text m)))"
proof -
  from assms(2) have two: "length (groups text m) \<ge> 2" by (simp add: split_groups)
  then have ne: "groups text m \<noteq> []" by auto
  then have mem: "last (groups text m) \<in> set (groups text m)" by simp
  from last_group_tail[OF two] split_ws_tail[OF assms(1)]
  have "filter (\<lambda>w. w \<noteq> []) (last (groups text m)) = last (groups text m)"
    by (auto simp: filter_id_conv)
  with countWords_group[OF mem] have "countWords (join_sp (last (groups text m))) = length (last (groups text m))"
    by simp
  moreover have "last (splitTextIntoSegments text m) = join_sp (last (groups text m))"
    using ne by (simp add: split_groups last_map)
  ultimately show ?thesis using last_group_length[OF two] by simp
qed

subsection \<open>White space at the ends of a text\<close>

text \<open>
  Claim C4. The segments of a text should add up to its words, and every segment but
  the last should hold at least \<open>m\<close> words. \<open>splitTextIntoSegments\<close> counts the pieces
  of \<open>split(/\s+/)\<close>, and the white space a text begins with gives an empty first piece
  that is counted as a word: with \<open>m = 3\<close> the first segment of \<open>" a b. c d e."\<close> is
  closed at its second word. The same text without the leading space is not cut.
\<close>

theorem leading_space_counts_as_word:
  "split_ws '' a b. c d e.'' = ['''', ''a'', ''b.'', ''c'', ''d'', ''e.''] \<and>
   splitTextIntoSegments '' a b. c d e.'' 3 = ['' a b.'', ''c d e.''] \<and>
   countWords '' a b.'' = 2 \<and>
   \<not> (3 \<le> int (countWords (hd (splitTextIntoSegments '' a b. c d e.'' 3)))) \<and>
   splitTextIntoSegments ''a b. c d e.'' 3 = [''a b. c d e.'']"
  by code_simp

text \<open>
  Claim C6. What remains after the loop should be appended to the last segment when it
  is shorter than \<open>m\<close> words and a segment was pushed before. The test is on the number
  of pieces, and the white space a text ends with gives an empty last piece that is
  counted as a word: with \<open>m = 2\<close> the one word that remains of \<open>"a b c. d "\<close> is a
  segment of its own. The same text without the space at its end has the word
  appended to the last segment.
\<close>

theorem trailing_space_counts_as_word:
  "split_ws ''a b c. d '' = [''a'', ''b'', ''c.'', ''d'', ''''] \<and>
   segment_loop 2 (split_ws ''a b c. d '') = ([''a b c.''], [''d'', '''']) \<and>
   splitTextIntoSegments ''a b c. d '' 2 = [''a b c.'', ''d ''] \<and>
   countWords ''d '' = 1 \<and>
   int (countWords (last (splitTextIntoSegments ''a b c. d '' 2))) < 2 \<and>
   splitTextIntoSegments ''a b c. d'' 2 = [''a b c. d'']"
  by code_simp
section \<open>The admission tests\<close>

lemma split_ws_sep:
  "no_space w \<Longrightarrow> is_space c \<Longrightarrow> split_ws (w @ c # r) = w # split_ws (dropWhile is_space r)"
  using takeWhile_no_space[of w "c # r"] dropWhile_no_space[of w "c # r"]
  by (subst split_ws.simps) (simp add: Let_def)

lemma split_sp_space: "split_sp (CHR '' '' # cs) = [] # split_sp cs"
  by (subst split_sp.simps) (simp add: Let_def)

lemma split_sp_last:
  "dropWhile (\<lambda>c. c \<noteq> CHR '' '') s = [] \<Longrightarrow> split_sp s = [takeWhile (\<lambda>c. c \<noteq> CHR '' '') s]"
  by (subst split_sp.simps) (simp only: Let_def refl if_True)

lemma split_sp_more:
  "dropWhile (\<lambda>c. c \<noteq> CHR '' '') s \<noteq> [] \<Longrightarrow>
   split_sp s = takeWhile (\<lambda>c. c \<noteq> CHR '' '') s # split_sp (tl (dropWhile (\<lambda>c. c \<noteq> CHR '' '') s))"
  by (subst split_sp.simps) (simp only: Let_def if_False)

lemma split_sp_other:
  assumes "c \<noteq> CHR '' ''"
  shows "length (split_sp (c # cs)) = length (split_sp cs)"
proof (cases "dropWhile (\<lambda>c. c \<noteq> CHR '' '') cs = []")
  case True
  with assms have "dropWhile (\<lambda>c. c \<noteq> CHR '' '') (c # cs) = []" by simp
  from split_sp_last[OF this] split_sp_last[OF True] show ?thesis by simp
next
  case False
  with assms have "dropWhile (\<lambda>c. c \<noteq> CHR '' '') (c # cs) \<noteq> []" by simp
  from split_sp_more[OF this] split_sp_more[OF False] assms show ?thesis by simp
qed

lemma length_split_sp: "length (split_sp s) = Suc (length (filter (\<lambda>c. c = CHR '' '') s))"
proof (induction s)
  case Nil
  show ?case by (simp add: split_sp_last)
next
  case (Cons c cs)
  then show ?case by (cases "c = CHR '' ''") (simp_all add: split_sp_space split_sp_other)
qed

lemma str_includes_hd: "str_includes s (p # ps) \<Longrightarrow> p \<in> set s"
  by (induction s) auto

text \<open>Words on lines of their own.\<close>

lemma lines_words: "wordCount (concat (replicate n ''w\<newline>'') @ ''w'') = Suc n"
proof (induction n)
  case 0
  show ?case by (simp add: wordCount_def split_ws_no_space no_space_def is_space_def)
next
  case (Suc n)
  let ?rest = "concat (replicate n ''w\<newline>'') @ ''w''"
  have "dropWhile is_space ?rest = ?rest"
    by (cases n) (simp_all add: is_space_def)
  moreover have "split_ws (''w'' @ CHR ''\<newline>'' # ?rest) = ''w'' # split_ws (dropWhile is_space ?rest)"
    by (rule split_ws_sep) (simp_all add: no_space_def is_space_def)
  ultimately show ?case using Suc by (simp add: wordCount_def)
qed

lemma lines_chars: "set (concat (replicate n ''w\<newline>'') @ ''w'') \<subseteq> {CHR ''w'', CHR ''\<newline>''}"
  by (induction n) auto

lemma pairs_words: "wordCount (concat (replicate n ''w  '') @ ''w'') = Suc n"
proof (induction n)
  case 0
  show ?case by (simp add: wordCount_def split_ws_no_space no_space_def is_space_def)
next
  case (Suc n)
  let ?rest = "concat (replicate n ''w  '') @ ''w''"
  have "dropWhile is_space (CHR '' '' # ?rest) = ?rest"
    by (cases n) (simp_all add: is_space_def)
  moreover have "split_ws (''w'' @ CHR '' '' # CHR '' '' # ?rest) = ''w'' # split_ws (dropWhile is_space (CHR '' '' # ?rest))"
    by (rule split_ws_sep) (simp_all add: no_space_def is_space_def)
  ultimately show ?case using Suc by (simp add: wordCount_def)
qed

lemma pairs_spaces: "length (filter (\<lambda>c. c = CHR '' '') (concat (replicate n ''w  '') @ ''w'')) = 2 * n"
  by (induction n) simp_all

lemma pairs_chars: "set (concat (replicate n ''w  '') @ ''w'') \<subseteq> {CHR ''w'', CHR '' ''}"
  by (induction n) auto

lemma no_update:
  assumes "CHR ''u'' \<notin> toLowerCase_char ` set s"
  shows "\<not> str_includes (toLowerCase s) ''update''"
  using assms str_includes_hd[of "toLowerCase s" "CHR ''u''" "''pdate''"]
  by (auto simp: toLowerCase_def)

lemma processPost_skipped: "skipped p \<Longrightarrow> processPost w st p subredditFolder = (Inr (), st, [])"
  by (auto simp: skipped_def processPost_def)

lemma processPost_admitted:
  "\<not> skipped p \<Longrightarrow> \<exists>calls. snd (snd (processPost w st p subredditFolder)) = CorrectCall (title p @ ''\<newline>\<newline>'' @ selftext p) # calls"
  by (auto simp: skipped_def processPost_def Let_def correctText_def split: prod.splits option.splits)

text \<open>On a text whose words are separated by single spaces only, the test counts the
  words.\<close>

lemma spaces_join_sp:
  "ws \<noteq> [] \<Longrightarrow> \<forall>w \<in> set ws. CHR '' '' \<notin> set w \<Longrightarrow>
   length (filter (\<lambda>c. c = CHR '' '') (join_sp ws)) = length ws - 1"
proof (induction ws rule: join_sp.induct)
  case 1
  then show ?case by simp
next
  case (2 w)
  then show ?case by (auto simp add: filter_empty_conv)
next
  case (3 w v ws)
  then have "filter (\<lambda>c. c = CHR '' '') w = []" by (auto simp add: filter_empty_conv)
  with 3 show ?case by simp
qed

lemma exceeds_600_single_spaced:
  assumes "ws \<noteq> []" and "\<forall>w \<in> set ws. CHR '' '' \<notin> set w"
  shows "exceeds_600 (p\<lparr>selftext := join_sp ws\<rparr>) \<longleftrightarrow> length ws > 600"
  using assms spaces_join_sp[OF assms]
  by (cases ws) (simp_all add: exceeds_600_def length_split_sp)

text \<open>
  Claim C7. A post is skipped before any call is made when its title or its text holds
  "update" in any case, or when its text has more than 600 words. The source counts
  the pieces between single spaces, \<open>split(" ").length\<close>, not the words: a text of 601
  words on lines of their own has one piece and is not skipped, and a text of 301 words
  with two spaces between them has 601 pieces and is skipped.
\<close>

theorem admission_counts_spaces:
  "wordCount (concat (replicate 600 ''w\<newline>'') @ ''w'') = 601 \<and>
   \<not> skipped \<lparr>title = ''t'', selftext = concat (replicate 600 ''w\<newline>'') @ ''w'', author = ''a'',
               subreddit_name_prefixed = ''r/x'', ups = 1, num_comments = 0\<rparr> \<and>
   wordCount (concat (replicate 300 ''w  '') @ ''w'') = 301 \<and>
   skipped \<lparr>title = ''t'', selftext = concat (replicate 300 ''w  '') @ ''w'', author = ''a'',
             subreddit_name_prefixed = ''r/x'', ups = 1, num_comments = 0\<rparr>"
proof -
  have a: "wordCount (concat (replicate 600 ''w\<newline>'') @ ''w'') = 601"
    using lines_words[of 600] by simp
  have "CHR '' '' \<notin> set (concat (replicate 600 ''w\<newline>'') @ ''w'')"
    using lines_chars[of 600] by auto
  then have "filter (\<lambda>c. c = CHR '' '') (concat (replicate 600 ''w\<newline>'') @ ''w'') = []"
    by (simp add: filter_empty_conv)
  then have b: "length (split_sp (concat (replicate 600 ''w\<newline>'') @ ''w'')) = 1"
    by (simp add: length_split_sp)
  have "toLowerCase_char ` set (concat (replicate 600 ''w\<newline>'') @ ''w'') \<subseteq> {CHR ''w'', CHR ''\<newline>''}"
    using lines_chars[of 600] by (auto simp: toLowerCase_char_def)
  then have c: "\<not> str_includes (toLowerCase (concat (replicate 600 ''w\<newline>'') @ ''w'')) ''update''"
    by (intro no_update) auto
  have d: "\<not> str_includes (toLowerCase ''t'') ''update''"
    by (simp add: toLowerCase_def toLowerCase_char_def)
  have e: "wordCount (concat (replicate 300 ''w  '') @ ''w'') = 301"
    using pairs_words[of 300] by simp
  have f: "length (split_sp (concat (replicate 300 ''w  '') @ ''w'')) = 601"
    using pairs_spaces[of 300] by (simp add: length_split_sp)
  from a b c d e f show ?thesis
    by (simp add: skipped_def mentions_update_def exceeds_600_def)
qed

section \<open>The splitter and its merge step\<close>

subsection \<open>Chunk names\<close>

lemma digit_char: "k < 10 \<Longrightarrow> is_digit (char_of (48 + k)) \<and> (of_char (char_of (48 + k :: nat)) :: nat) = 48 + k"
  by (simp add: is_digit_def)

lemma show_nat_digits: "list_all is_digit (show_nat n) \<and> show_nat n \<noteq> []"
proof (induction n rule: show_nat.induct)
  case (1 n)
  show ?case
  proof (cases "n < 10")
    case True
    then show ?thesis by (subst (1 2) show_nat.simps) (simp add: digit_char)
  next
    case False
    with 1 have "list_all is_digit (show_nat (n div 10))" by simp
    moreover have "is_digit (char_of (48 + n mod 10))" by (simp add: digit_char)
    ultimately show ?thesis using False by (subst (1 2) show_nat.simps) simp
  qed
qed

lemma parse_digits_snoc: "parse_digits (ds @ [c]) = 10 * parse_digits ds + (of_char c - 48)"
  by (simp add: parse_digits_def)

lemma parse_show: "parse_digits (show_nat n) = n"
proof (induction n rule: show_nat.induct)
  case (1 n)
  show ?case
  proof (cases "n < 10")
    case True
    then show ?thesis by (subst show_nat.simps) (simp add: parse_digits_def digit_char)
  next
    case False
    with 1 have "parse_digits (show_nat (n div 10)) = n div 10" by simp
    moreover have "(of_char (char_of (48 + n mod 10)) :: nat) - 48 = n mod 10"
      by (simp add: digit_char)
    ultimately show ?thesis using False
      by (subst show_nat.simps) (simp add: parse_digits_snoc)
  qed
qed

lemma takeWhile_digits:
  "list_all is_digit ds \<Longrightarrow> \<not> is_digit c \<Longrightarrow>
   takeWhile is_digit (ds @ c # r) = ds \<and> dropWhile is_digit (ds @ c # r) = c # r"
  by (induction ds) simp_all

lemma chunk_name_number: "segment_number (chunk_name i) = Some i"
proof -
  have nd: "\<not> is_digit CHR ''.''" by (simp add: is_digit_def)
  have h: "number_here (''segment_'' @ show_nat i @ ''.mp4'') = Some i"
    using takeWhile_digits[OF conjunct1[OF show_nat_digits] nd, of i "''mp4''"]
      show_nat_digits[of i]
    by (simp add: number_here_def parse_show)
  then show ?thesis by (simp add: chunk_name_def)
qed

lemma chunk_name_inj: "chunk_name i = chunk_name j \<Longrightarrow> i = j"
  by (metis chunk_name_number option.inject)

lemma endsWith_append: "endsWith (a @ p) p"
  by (simp add: endsWith_def)

lemma chunk_name_listed: "startsWith (chunk_name i) ''segment_'' \<and> endsWith (chunk_name i) ''.mp4''"
  using endsWith_append[of "''segment_'' @ show_nat i" "''.mp4''"]
  by (simp add: chunk_name_def)

lemma segment_files_chunk_names: "segment_files (chunk_names n) = chunk_names n"
  by (simp add: segment_files_def chunk_names_def chunk_name_listed)

lemma distinct_chunk_names: "distinct (chunk_names n)"
  by (auto simp: chunk_names_def distinct_map inj_on_def dest: chunk_name_inj)


subsection \<open>The sort\<close>


lemma sort_chunk_names:
  assumes "distinct xs" and "set xs = set (chunk_names n)"
  shows "sort_segments xs = Some (chunk_names n)"
proof -
  let ?key = "\<lambda>file. case segment_number file of Some n \<Rightarrow> n | None \<Rightarrow> 0"
  let ?ys = "sort_key ?key xs"
  have key: "?key (chunk_name i) = i" for i by (simp add: chunk_name_number)
  have mem: "x \<in> set xs \<Longrightarrow> \<exists>i < n. x = chunk_name i" for x
    using assms(2) by (auto simp: chunk_names_def)
  then have named: "x \<in> set xs \<Longrightarrow> chunk_name (?key x) = x" for x
    using key by (metis (no_types, lifting))
  have nonone: "\<not> (\<exists>file \<in> set xs. segment_number file = None)"
    using mem chunk_name_number by force
  have "inj_on ?key (set xs)"
    by (rule inj_onI) (metis (no_types, lifting) named)
  then have d: "distinct (map ?key ?ys)"
    using assms(1) by (simp add: distinct_map)
  have s: "sorted (map ?key ?ys)" by (rule sorted_sort_key)
  have "set (map ?key ?ys) = ?key ` set (chunk_names n)" using assms(2) by simp
  also have "\<dots> = {0..<n}" by (auto simp: chunk_names_def key image_iff)
  finally have "set (map ?key ?ys) = set [0..<n]" by simp
  with s d have k: "map ?key ?ys = [0..<n]"
    by (intro sorted_distinct_set_unique) simp_all
  have "map (\<lambda>x. chunk_name (?key x)) ?ys = ?ys"
    by (rule map_idI) (simp add: named)
  then have "?ys = map chunk_name (map ?key ?ys)" by (simp add: comp_def)
  with k have "?ys = chunk_names n" by (simp add: chunk_names_def)
  with nonone show ?thesis by (simp add: sort_segments_def)
qed

subsection \<open>The files a cut writes\<close>

lemma add_entry_set: "set (add_entry x xs) = insert x (set xs)"
  by (auto simp: add_entry_def)

lemma add_entry_distinct: "distinct xs \<Longrightarrow> distinct (add_entry x xs)"
  by (simp add: add_entry_def)

lemma write_chunks_cwd:
  "set (cwd (write_chunks st i ds)) = set (cwd st) \<union> chunk_name ` {i..<i + length ds} \<and>
   (distinct (cwd st) \<longrightarrow> distinct (cwd (write_chunks st i ds)))"
proof (induction ds arbitrary: st i)
  case Nil
  show ?case by simp
next
  case (Cons d ds)
  have "{i..<i + length (d # ds)} = insert i {i + 1..<i + 1 + length ds}" by auto
  with Cons[of "write_cwd st (chunk_name i) (Video d)" "i + 1"] show ?case
    by (auto simp: write_cwd_def add_entry_set add_entry_distinct)
qed

lemma write_chunks_files_other:
  "(\<forall>k < length ds. name \<noteq> chunk_name (i + k)) \<Longrightarrow> files (write_chunks st i ds) name = files st name"
proof (induction ds arbitrary: st i)
  case Nil
  show ?case by simp
next
  case (Cons d ds)
  from Cons.prems have "name \<noteq> chunk_name i" by force
  moreover from Cons.prems have "\<forall>k < length ds. name \<noteq> chunk_name (i + 1 + k)" by force
  ultimately show ?case using Cons.IH[of "i + 1" "write_cwd st (chunk_name i) (Video d)"]
    by (simp add: write_cwd_def)
qed

lemma write_chunks_files:
  "k < length ds \<Longrightarrow> files (write_chunks st i ds) (chunk_name (i + k)) = Some (Video (ds ! k))"
proof (induction ds arbitrary: st i k)
  case Nil
  then show ?case by simp
next
  case (Cons d ds)
  show ?case
  proof (cases k)
    case 0
    have "\<forall>j < length ds. chunk_name i \<noteq> chunk_name (i + 1 + j)"
      by (auto dest: chunk_name_inj)
    from write_chunks_files_other[OF this, of "write_cwd st (chunk_name i) (Video d)"] 0
    show ?thesis by (simp add: write_cwd_def)
  next
    case (Suc j)
    with Cons.prems have "j < length ds" by simp
    from Cons.IH[OF this, of "write_cwd st (chunk_name i) (Video d)" "i + 1"] Suc
    show ?thesis by simp
  qed
qed

text \<open>The list after a cut, when every segment file that was there before is one the
  cut writes again.\<close>

lemma listing_after_cut:
  assumes "distinct (cwd st)"
      and "set (segment_files (cwd st)) \<subseteq> set (chunk_names (length ds))"
  shows "sort_segments (segment_files (cwd (write_chunks st 0 ds))) = Some (chunk_names (length ds))"
proof (rule sort_chunk_names)
  show "distinct (segment_files (cwd (write_chunks st 0 ds)))"
    using assms(1) write_chunks_cwd[of st 0 ds] by (simp add: segment_files_def)
  have "set (segment_files (cwd (write_chunks st 0 ds))) =
          set (segment_files (cwd st)) \<union> set (chunk_names (length ds))"
    using write_chunks_cwd[of st 0 ds]
    by (auto simp: segment_files_def chunk_names_def chunk_name_listed)
  with assms(2) show "set (segment_files (cwd (write_chunks st 0 ds))) = set (chunk_names (length ds))"
    by auto
qed

subsection \<open>The merge step on a list that ends with two names\<close>

lemma probe_reply:
  "getAudioDuration w st name =
     ((if probe_fails w name then Inl ProbeError
       else case files st name of Some (Audio d) \<Rightarrow> Inr d | Some (Video d) \<Rightarrow> Inr d | _ \<Rightarrow> Inl ProbeError),
      [ProbeCall name])"
  by (simp add: getAudioDuration_def split: option.splits artifact.splits)

lemma merge_calls:
  "snd (snd (mergeLastSegment w st (xs @ [p, l]))) =
     (if (case fst (getAudioDuration w st l) of Inl _ \<Rightarrow> 0 | Inr d \<Rightarrow> d) < 30
      then [ProbeCall l, ConcatCall p l] else [ProbeCall l])"
  by (simp add: mergeLastSegment_def Let_def nth_append probe_reply split: option.splits)


lemma merge_two:
  assumes "files st p = Some (Video a)" and "files st l = Some (Video b)"
      and "p \<noteq> ''concat_list.txt''" and "l \<noteq> ''concat_list.txt''"
  shows "fst (mergeLastSegment w st (xs @ [p, l])) =
           (if (if probe_fails w l then 0 else b) < 30 \<and> \<not> concat_fails w then xs @ [p] else xs @ [p, l])"
    and "snd (snd (mergeLastSegment w st (xs @ [p, l]))) =
           (if (if probe_fails w l then 0 else b) < 30 then [ProbeCall l, ConcatCall p l] else [ProbeCall l])"
    and "(if probe_fails w l then 0 else b) < 30 \<and> \<not> concat_fails w \<Longrightarrow>
           p \<noteq> l \<Longrightarrow> p \<noteq> ''merged_last.mp4'' \<Longrightarrow> l \<noteq> ''merged_last.mp4'' \<Longrightarrow>
           files (fst (snd (mergeLastSegment w st (xs @ [p, l])))) p = Some (Video (a + b))"
    and "(if probe_fails w l then 0 else b) < 30 \<and> \<not> concat_fails w \<Longrightarrow>
           n \<noteq> p \<Longrightarrow> n \<noteq> l \<Longrightarrow> n \<noteq> ''merged_last.mp4'' \<Longrightarrow> n \<noteq> ''concat_list.txt'' \<Longrightarrow>
           files (fst (snd (mergeLastSegment w st (xs @ [p, l])))) n = files st n"
    and "\<not> ((if probe_fails w l then 0 else b) < 30 \<and> \<not> concat_fails w) \<Longrightarrow>
           n \<noteq> ''concat_list.txt'' \<Longrightarrow>
           files (fst (snd (mergeLastSegment w st (xs @ [p, l])))) n = files st n"
    and "(if probe_fails w l then 0 else b) < 30 \<and> \<not> concat_fails w \<Longrightarrow>
           p \<noteq> l \<Longrightarrow> l \<noteq> ''merged_last.mp4'' \<Longrightarrow>
           files (fst (snd (mergeLastSegment w st (xs @ [p, l])))) l = None"
  using assms
  by (auto simp add: mergeLastSegment_def Let_def nth_append butlast_append probe_reply concat_copy_def
        write_cwd_def unlink_cwd_def rename_cwd_def split: if_splits)

lemma merge_short: "length segments \<le> 1 \<Longrightarrow> mergeLastSegment w st segments = (segments, st, [])"
  by (simp add: mergeLastSegment_def)

text \<open>\<open>splitVideo\<close> in terms of the list of segment files.\<close>

lemma splitVideo_listed:
  assumes "cut_reply w inputPath segmentDuration = Some durations"
      and "sort_segments (segment_files (cwd (write_chunks st 0 durations))) = Some segments"
  shows "splitVideo w st inputPath segmentDuration =
           (Some (Inr (fst (mergeLastSegment w (write_chunks st 0 durations) segments))),
            fst (snd (mergeLastSegment w (write_chunks st 0 durations) segments)),
            CutCall inputPath segmentDuration #
              snd (snd (mergeLastSegment w (write_chunks st 0 durations) segments)))"
  using assms by (simp add: splitVideo_def split: prod.splits)


lemma chunk_names_Suc: "chunk_names (Suc n) = chunk_names n @ [chunk_name n]"
  by (simp add: chunk_names_def)

lemma chunk_name_reserved: "chunk_name i \<noteq> ''concat_list.txt'' \<and> chunk_name i \<noteq> ''merged_last.mp4''"
  by (simp add: chunk_name_def)

text \<open>A cut of more than one chunk into a directory whose segment files, if any, are
  among those the cut writes.\<close>

lemma splitVideo_fresh:
  assumes cut: "cut_reply w inputPath segmentDuration = Some (ds @ [a, b])"
      and dist: "distinct (cwd st)"
      and stale: "set (segment_files (cwd st)) \<subseteq> set (chunk_names (length ds + 2))"
  defines "prev \<equiv> chunk_name (length ds)" and "lst \<equiv> chunk_name (length ds + 1)"
  defines "merged \<equiv> (if probe_fails w lst then 0 else b) < 30 \<and> \<not> concat_fails w"
  shows "fst (splitVideo w st inputPath segmentDuration) =
           Some (Inr (if merged then chunk_names (length ds + 1) else chunk_names (length ds + 2)))"
    and "snd (snd (splitVideo w st inputPath segmentDuration)) =
           CutCall inputPath segmentDuration #
           (if (if probe_fails w lst then 0 else b) < 30 then [ProbeCall lst, ConcatCall prev lst]
            else [ProbeCall lst])"
    and "map (duration_at (fst (snd (splitVideo w st inputPath segmentDuration))))
           (if merged then chunk_names (length ds + 1) else chunk_names (length ds + 2)) =
         map Some (if merged then ds @ [a + b] else ds @ [a, b])"
    and "merged \<Longrightarrow> duration_at (fst (snd (splitVideo w st inputPath segmentDuration))) lst = None"
proof -
  let ?n = "length ds"
  let ?st1 = "write_chunks st 0 (ds @ [a, b])"
  let ?M = "mergeLastSegment w ?st1 (chunk_names ?n @ [prev, lst])"
  have names: "chunk_names (?n + 2) = chunk_names ?n @ [prev, lst]"
    "chunk_names (?n + 1) = chunk_names ?n @ [prev]"
    by (simp_all add: chunk_names_def prev_def lst_def)
  have names': "chunk_names (Suc (Suc ?n)) = chunk_names ?n @ [prev, lst]"
    "chunk_names (Suc ?n) = chunk_names ?n @ [prev]"
    by (simp_all add: chunk_names_def prev_def lst_def)
  from stale have "set (segment_files (cwd st)) \<subseteq> set (chunk_names (length (ds @ [a, b])))"
    by simp
  from listing_after_cut[OF dist this]
  have "sort_segments (segment_files (cwd ?st1)) = Some (chunk_names (?n + 2))"
    by simp
  then have listing: "sort_segments (segment_files (cwd ?st1)) = Some (chunk_names ?n @ [prev, lst])"
    by (simp only: names)
  note sv = splitVideo_listed[OF cut listing]
  have F: "files ?st1 (chunk_name k) = Some (Video ((ds @ [a, b]) ! k))" if "k < ?n + 2" for k
    using write_chunks_files[of k "ds @ [a, b]" st 0] that by simp
  have fp: "files ?st1 prev = Some (Video a)" and fl: "files ?st1 lst = Some (Video b)"
    using F[of ?n] F[of "?n + 1"] by (simp_all add: prev_def lst_def nth_append)
  have fk: "files ?st1 (chunk_name k) = Some (Video (ds ! k))" if "k < ?n" for k
    using F[of k] that by (simp add: nth_append)
  have pl: "prev \<noteq> lst" using chunk_name_inj[of ?n "?n + 1"] by (auto simp: prev_def lst_def)
  have res: "prev \<noteq> ''concat_list.txt''" "lst \<noteq> ''concat_list.txt''"
    "prev \<noteq> ''merged_last.mp4''" "lst \<noteq> ''merged_last.mp4''"
    by (simp_all add: prev_def lst_def chunk_name_reserved)
  note mt = merge_two[where st = "?st1" and p = prev and a = a and l = lst and b = b and w = w
      and xs = "chunk_names ?n", OF fp fl res(1,2)]
  show "fst (splitVideo w st inputPath segmentDuration) =
           Some (Inr (if merged then chunk_names (length ds + 1) else chunk_names (length ds + 2)))"
    by (simp add: sv mt(1) merged_def names')
  show "snd (snd (splitVideo w st inputPath segmentDuration)) =
           CutCall inputPath segmentDuration #
           (if (if probe_fails w lst then 0 else b) < 30 then [ProbeCall lst, ConcatCall prev lst]
            else [ProbeCall lst])"
    by (simp add: sv mt(2))
  have rest: "duration_at (fst (snd ?M)) (chunk_name k) = Some (ds ! k)" if "k < ?n" for k
  proof -
    from that have "chunk_name k \<noteq> prev" "chunk_name k \<noteq> lst"
      using chunk_name_inj[of k ?n] chunk_name_inj[of k "?n + 1"] by (auto simp: prev_def lst_def)
    moreover have "chunk_name k \<noteq> ''merged_last.mp4''" "chunk_name k \<noteq> ''concat_list.txt''"
      by (simp_all add: chunk_name_reserved)
    ultimately have "files (fst (snd ?M)) (chunk_name k) = files ?st1 (chunk_name k)"
      using mt(4)[of "chunk_name k"] mt(5)[of "chunk_name k"] by (cases merged) (simp_all add: merged_def)
    with fk[OF that] show ?thesis by (simp add: duration_at_def)
  qed
  have "map (\<lambda>k. duration_at (fst (snd ?M)) (chunk_name k)) [0..<?n] = map (\<lambda>k. Some (ds ! k)) [0..<?n]"
    by (rule map_cong) (simp_all add: rest)
  also have "\<dots> = map Some (map (\<lambda>k. ds ! k) [0..<?n])" by simp
  also have "\<dots> = map Some ds" by (simp only: map_nth)
  finally have d1: "map (duration_at (fst (snd ?M))) (chunk_names ?n) = map Some ds"
    by (simp add: chunk_names_def comp_def)
  show "map (duration_at (fst (snd (splitVideo w st inputPath segmentDuration))))
           (if merged then chunk_names (length ds + 1) else chunk_names (length ds + 2)) =
         map Some (if merged then ds @ [a + b] else ds @ [a, b])"
  proof (cases merged)
    case True
    with mt(3) pl res have "duration_at (fst (snd ?M)) prev = Some (a + b)"
      by (simp add: duration_at_def merged_def)
    with True d1 show ?thesis by (simp add: sv names')
  next
    case False
    with mt(5)[of prev] mt(5)[of lst] res fp fl
    have "duration_at (fst (snd ?M)) prev = Some a" "duration_at (fst (snd ?M)) lst = Some b"
      by (simp_all add: duration_at_def merged_def)
    with False d1 show ?thesis by (simp add: sv names')
  qed
  show "duration_at (fst (snd (splitVideo w st inputPath segmentDuration))) lst = None" if merged
    using mt(6) that pl res by (simp add: sv duration_at_def merged_def)
qed

lemma splitVideo_single:
  assumes cut: "cut_reply w inputPath segmentDuration = Some [a]"
      and dist: "distinct (cwd st)"
      and stale: "set (segment_files (cwd st)) \<subseteq> {chunk_name 0}"
  shows "fst (splitVideo w st inputPath segmentDuration) = Some (Inr [chunk_name 0])"
    and "snd (snd (splitVideo w st inputPath segmentDuration)) = [CutCall inputPath segmentDuration]"
    and "duration_at (fst (snd (splitVideo w st inputPath segmentDuration))) (chunk_name 0) = Some a"
proof -
  from stale have "set (segment_files (cwd st)) \<subseteq> set (chunk_names (length [a]))"
    by (simp add: chunk_names_def)
  from listing_after_cut[OF dist this]
  have listing: "sort_segments (segment_files (cwd (write_chunks st 0 [a]))) = Some [chunk_name 0]"
    by (simp add: chunk_names_def)
  note sv = splitVideo_listed[OF cut listing]
  show "fst (splitVideo w st inputPath segmentDuration) = Some (Inr [chunk_name 0])"
    and "snd (snd (splitVideo w st inputPath segmentDuration)) = [CutCall inputPath segmentDuration]"
    and "duration_at (fst (snd (splitVideo w st inputPath segmentDuration))) (chunk_name 0) = Some a"
    by (simp_all add: sv merge_short duration_at_def write_cwd_def)
qed

subsection \<open>The claims on \<open>splitVideo\<close>\<close>

text \<open>
  Claim C8, as amended. Take a working directory whose segment files, if there are any,
  are among those the cut writes, and let the probe of the last chunk succeed. When
  the cut writes more than one chunk: if the last chunk is shorter than 30 seconds and
  the concat command succeeds, the last chunk is appended to the one before it and
  dropped, so that one chunk less is returned; if it is 30 seconds or longer, or the
  concat command fails, the chunks are returned unchanged. The concat command is run
  when the last chunk is shorter than 30 seconds, and only then. A cut that writes a
  single chunk returns it without a probe or a merge, whatever its duration.
\<close>

theorem splitVideo_rebalance:
  "(cut_reply w inputPath segmentDuration = Some (ds @ [a, b]) \<and>
    distinct (cwd st) \<and>
    set (segment_files (cwd st)) \<subseteq> set (chunk_names (length ds + 2)) \<and>
    \<not> probe_fails w (chunk_name (length ds + 1)) \<longrightarrow>
      (b < 30 \<and> \<not> concat_fails w \<longrightarrow>
         fst (splitVideo w st inputPath segmentDuration) = Some (Inr (chunk_names (length ds + 1))) \<and>
         map (duration_at (fst (snd (splitVideo w st inputPath segmentDuration))))
             (chunk_names (length ds + 1))
           = map Some (ds @ [a + b]) \<and>
         duration_at (fst (snd (splitVideo w st inputPath segmentDuration)))
             (chunk_name (length ds + 1)) = None) \<and>
      (30 \<le> b \<or> concat_fails w \<longrightarrow>
         fst (splitVideo w st inputPath segmentDuration) = Some (Inr (chunk_names (length ds + 2))) \<and>
         map (duration_at (fst (snd (splitVideo w st inputPath segmentDuration))))
             (chunk_names (length ds + 2))
           = map Some (ds @ [a, b])) \<and>
      snd (snd (splitVideo w st inputPath segmentDuration)) =
        CutCall inputPath segmentDuration #
        (if b < 30
         then [ProbeCall (chunk_name (length ds + 1)),
               ConcatCall (chunk_name (length ds)) (chunk_name (length ds + 1))]
         else [ProbeCall (chunk_name (length ds + 1))])) \<and>
   (cut_reply w inputPath segmentDuration = Some [a] \<and>
    distinct (cwd st) \<and>
    set (segment_files (cwd st)) \<subseteq> {chunk_name 0} \<longrightarrow>
      fst (splitVideo w st inputPath segmentDuration) = Some (Inr [chunk_name 0]) \<and>
      snd (snd (splitVideo w st inputPath segmentDuration)) = [CutCall inputPath segmentDuration] \<and>
      duration_at (fst (snd (splitVideo w st inputPath segmentDuration))) (chunk_name 0) = Some a)"
proof (intro conjI impI)
  assume h: "cut_reply w inputPath segmentDuration = Some (ds @ [a, b]) \<and>
    distinct (cwd st) \<and>
    set (segment_files (cwd st)) \<subseteq> set (chunk_names (length ds + 2)) \<and>
    \<not> probe_fails w (chunk_name (length ds + 1))"
  then have cut: "cut_reply w inputPath segmentDuration = Some (ds @ [a, b])"
    and dist: "distinct (cwd st)"
    and stale: "set (segment_files (cwd st)) \<subseteq> set (chunk_names (length ds + 2))"
    and p: "\<not> probe_fails w (chunk_name (length ds + 1))"
    by blast+
  note fresh = splitVideo_fresh[OF cut dist stale]
  from fresh(2) p
  show "snd (snd (splitVideo w st inputPath segmentDuration)) =
        CutCall inputPath segmentDuration #
        (if b < 30
         then [ProbeCall (chunk_name (length ds + 1)),
               ConcatCall (chunk_name (length ds)) (chunk_name (length ds + 1))]
         else [ProbeCall (chunk_name (length ds + 1))])"
    by simp
  {
    assume m: "b < 30 \<and> \<not> concat_fails w"
    with p have c: "(if probe_fails w (chunk_name (length ds + 1)) then 0 else b) < 30 \<and> \<not> concat_fails w"
      by simp
    from fresh(1) show "fst (splitVideo w st inputPath segmentDuration) = Some (Inr (chunk_names (length ds + 1)))"
      by (simp only: if_P[OF c])
    from fresh(3) show "map (duration_at (fst (snd (splitVideo w st inputPath segmentDuration))))
             (chunk_names (length ds + 1)) = map Some (ds @ [a + b])"
      by (simp only: if_P[OF c])
    from fresh(4)[OF c]
    show "duration_at (fst (snd (splitVideo w st inputPath segmentDuration)))
             (chunk_name (length ds + 1)) = None" .
  }
  {
    assume "30 \<le> b \<or> concat_fails w"
    with p have c: "\<not> ((if probe_fails w (chunk_name (length ds + 1)) then 0 else b) < 30 \<and> \<not> concat_fails w)"
      by auto
    from fresh(1) show "fst (splitVideo w st inputPath segmentDuration) = Some (Inr (chunk_names (length ds + 2)))"
      by (simp only: if_not_P[OF c])
    from fresh(3) show "map (duration_at (fst (snd (splitVideo w st inputPath segmentDuration))))
             (chunk_names (length ds + 2)) = map Some (ds @ [a, b])"
      by (simp only: if_not_P[OF c])
  }
next
  assume h: "cut_reply w inputPath segmentDuration = Some [a] \<and>
    distinct (cwd st) \<and>
    set (segment_files (cwd st)) \<subseteq> {chunk_name 0}"
  then have cut: "cut_reply w inputPath segmentDuration = Some [a]"
    and dist: "distinct (cwd st)"
    and stale: "set (segment_files (cwd st)) \<subseteq> {chunk_name 0}"
    by blast+
  note single = splitVideo_single[OF cut dist stale]
  show "fst (splitVideo w st inputPath segmentDuration) = Some (Inr [chunk_name 0])"
    by (rule single(1))
  show "snd (snd (splitVideo w st inputPath segmentDuration)) = [CutCall inputPath segmentDuration]"
    by (rule single(2))
  show "duration_at (fst (snd (splitVideo w st inputPath segmentDuration))) (chunk_name 0) = Some a"
    by (rule single(3))
qed

text \<open>The chunks \<open>[60, 60, 60, 25]\<close>, \<open>[60, 60, 60, 45]\<close> and \<open>[10]\<close>, cut into an empty
  directory.\<close>

theorem splitVideo_rebalance_witness:
  "fst (splitVideo (quiet_world\<lparr>cut_reply := \<lambda>_ _. Some (four_chunks 25)\<rparr>) empty_state ''video.mp4'' 60)
     = Some (Inr [''segment_0.mp4'', ''segment_1.mp4'', ''segment_2.mp4'']) \<and>
   map (duration_at (fst (snd (splitVideo (quiet_world\<lparr>cut_reply := \<lambda>_ _. Some (four_chunks 25)\<rparr>)
          empty_state ''video.mp4'' 60))))
       [''segment_0.mp4'', ''segment_1.mp4'', ''segment_2.mp4'', ''segment_3.mp4'']
     = [Some 60, Some 60, Some 85, None] \<and>
   snd (snd (splitVideo (quiet_world\<lparr>cut_reply := \<lambda>_ _. Some (four_chunks 25)\<rparr>) empty_state ''video.mp4'' 60))
     = [CutCall ''video.mp4'' 60, ProbeCall ''segment_3.mp4'',
        ConcatCall ''segment_2.mp4'' ''segment_3.mp4''] \<and>
   fst (splitVideo (quiet_world\<lparr>cut_reply := \<lambda>_ _. Some (four_chunks 45)\<rparr>) empty_state ''video.mp4'' 60)
     = Some (Inr [''segment_0.mp4'', ''segment_1.mp4'', ''segment_2.mp4'', ''segment_3.mp4'']) \<and>
   map (duration_at (fst (snd (splitVideo (quiet_world\<lparr>cut_reply := \<lambda>_ _. Some (four_chunks 45)\<rparr>)
          empty_state ''video.mp4'' 60))))
       [''segment_0.mp4'', ''segment_1.mp4'', ''segment_2.mp4'', ''segment_3.mp4'']
     = [Some 60, Some 60, Some 60, Some 45] \<and>
   snd (snd (splitVideo (quiet_world\<lparr>cut_reply := \<lambda>_ _. Some (four_chunks 45)\<rparr>) empty_state ''video.mp4'' 60))
     = [CutCall ''video.mp4'' 60, ProbeCall ''segment_3.mp4''] \<and>
   fst (splitVideo (quiet_world\<lparr>cut_reply := \<lambda>_ _. Some [10]\<rparr>) empty_state ''video.mp4'' 60)
     = Some (Inr [''segment_0.mp4'']) \<and>
   snd (snd (splitVideo (quiet_world\<lparr>cut_reply := \<lambda>_ _. Some [10]\<rparr>) empty_state ''video.mp4'' 60))
     = [CutCall ''video.mp4'' 60] \<and>
   duration_at (fst (snd (splitVideo (quiet_world\<lparr>cut_reply := \<lambda>_ _. Some [10]\<rparr>)
          empty_state ''video.mp4'' 60))) ''segment_0.mp4'' = Some 10"
proof -
  have n3: "chunk_names (length [60, 60 :: real] + 1) = [''segment_0.mp4'', ''segment_1.mp4'', ''segment_2.mp4'']"
    by code_simp
  have n4: "chunk_names (length [60, 60 :: real] + 2) =
      [''segment_0.mp4'', ''segment_1.mp4'', ''segment_2.mp4'', ''segment_3.mp4'']"
    by code_simp
  have n: "chunk_name (length [60, 60 :: real] + 1) = ''segment_3.mp4''"
    "chunk_name (length [60, 60 :: real]) = ''segment_2.mp4''"
    by code_simp+
  have n0: "chunk_name 0 = ''segment_0.mp4''" by code_simp
  have e: "distinct (cwd empty_state)" "segment_files (cwd empty_state) = []"
    by (simp_all add: empty_state_def segment_files_def)
  have p: "\<not> probe_fails (quiet_world\<lparr>cut_reply := c\<rparr>) x" for c x
    by (simp add: quiet_world_def)
  have c: "\<not> concat_fails (quiet_world\<lparr>cut_reply := c\<rparr>)" for c
    by (simp add: quiet_world_def)
  have a: "fst (splitVideo (quiet_world\<lparr>cut_reply := \<lambda>_ _. Some (four_chunks 25)\<rparr>) empty_state ''video.mp4'' 60)
     = Some (Inr [''segment_0.mp4'', ''segment_1.mp4'', ''segment_2.mp4'']) \<and>
   map (duration_at (fst (snd (splitVideo (quiet_world\<lparr>cut_reply := \<lambda>_ _. Some (four_chunks 25)\<rparr>)
          empty_state ''video.mp4'' 60))))
       [''segment_0.mp4'', ''segment_1.mp4'', ''segment_2.mp4'', ''segment_3.mp4'']
     = [Some 60, Some 60, Some 85, None] \<and>
   snd (snd (splitVideo (quiet_world\<lparr>cut_reply := \<lambda>_ _. Some (four_chunks 25)\<rparr>) empty_state ''video.mp4'' 60))
     = [CutCall ''video.mp4'' 60, ProbeCall ''segment_3.mp4'',
        ConcatCall ''segment_2.mp4'' ''segment_3.mp4'']"
    using splitVideo_rebalance[where w = "quiet_world\<lparr>cut_reply := \<lambda>_ _. Some (four_chunks 25)\<rparr>"
      and inputPath = "''video.mp4''" and segmentDuration = 60 and st = empty_state
      and ds = "[60, 60]" and a = 60 and b = 25] e p c
    unfolding n3 n4 n by (simp add: four_chunks_def)
  have b: "fst (splitVideo (quiet_world\<lparr>cut_reply := \<lambda>_ _. Some (four_chunks 45)\<rparr>) empty_state ''video.mp4'' 60)
     = Some (Inr [''segment_0.mp4'', ''segment_1.mp4'', ''segment_2.mp4'', ''segment_3.mp4'']) \<and>
   map (duration_at (fst (snd (splitVideo (quiet_world\<lparr>cut_reply := \<lambda>_ _. Some (four_chunks 45)\<rparr>)
          empty_state ''video.mp4'' 60))))
       [''segment_0.mp4'', ''segment_1.mp4'', ''segment_2.mp4'', ''segment_3.mp4'']
     = [Some 60, Some 60, Some 60, Some 45] \<and>
   snd (snd (splitVideo (quiet_world\<lparr>cut_reply := \<lambda>_ _. Some (four_chunks 45)\<rparr>) empty_state ''video.mp4'' 60))
     = [CutCall ''video.mp4'' 60, ProbeCall ''segment_3.mp4'']"
    using splitVideo_rebalance[where w = "quiet_world\<lparr>cut_reply := \<lambda>_ _. Some (four_chunks 45)\<rparr>"
      and inputPath = "''video.mp4''" and segmentDuration = 60 and st = empty_state
      and ds = "[60, 60]" and a = 60 and b = 45] e p c
    unfolding n3 n4 n by (simp add: four_chunks_def)
  have s: "fst (splitVideo (quiet_world\<lparr>cut_reply := \<lambda>_ _. Some [10]\<rparr>) empty_state ''video.mp4'' 60)
     = Some (Inr [''segment_0.mp4'']) \<and>
   snd (snd (splitVideo (quiet_world\<lparr>cut_reply := \<lambda>_ _. Some [10]\<rparr>) empty_state ''video.mp4'' 60))
     = [CutCall ''video.mp4'' 60] \<and>
   duration_at (fst (snd (splitVideo (quiet_world\<lparr>cut_reply := \<lambda>_ _. Some [10]\<rparr>)
          empty_state ''video.mp4'' 60))) ''segment_0.mp4'' = Some 10"
    using splitVideo_rebalance[where w = "quiet_world\<lparr>cut_reply := \<lambda>_ _. Some [10]\<rparr>"
      and inputPath = "''video.mp4''" and segmentDuration = 60 and st = empty_state and a = 10] e
    unfolding n0 by simp
  from a b s show ?thesis by blast
qed

text \<open>
  The claim as stated fails when the concat command fails: the last of the chunks
  \<open>[60, 60, 60, 25]\<close> is shorter than 30 seconds and all four chunks are returned. It
  also fails when an earlier cut has left a segment file with a higher number: after a
  cut into chunks of 60 and 45 seconds, the file \<open>segment_5.mp4\<close> of 10 seconds is the
  last of the list and is merged into the 45-second chunk.
\<close>

theorem splitVideo_merge_failure:
  "fst (splitVideo (quiet_world\<lparr>cut_reply := \<lambda>_ _. Some (four_chunks 25), concat_fails := True\<rparr>)
          empty_state ''video.mp4'' 60)
     = Some (Inr [''segment_0.mp4'', ''segment_1.mp4'', ''segment_2.mp4'', ''segment_3.mp4'']) \<and>
   map (duration_at (fst (snd (splitVideo
          (quiet_world\<lparr>cut_reply := \<lambda>_ _. Some (four_chunks 25), concat_fails := True\<rparr>)
          empty_state ''video.mp4'' 60))))
       [''segment_0.mp4'', ''segment_1.mp4'', ''segment_2.mp4'', ''segment_3.mp4'']
     = [Some 60, Some 60, Some 60, Some 25] \<and>
   fst (splitVideo (quiet_world\<lparr>cut_reply := \<lambda>_ _. Some (four_chunks 25), concat_fails := True\<rparr>)
          empty_state ''video.mp4'' 60)
     \<noteq> Some (Inr [''segment_0.mp4'', ''segment_1.mp4'', ''segment_2.mp4'']) \<and>
   snd (snd (splitVideo (quiet_world\<lparr>cut_reply := \<lambda>_ _. Some [60, 45]\<rparr>)
          (write_cwd empty_state ''segment_5.mp4'' (Video 10)) ''video.mp4'' 60))
     = [CutCall ''video.mp4'' 60, ProbeCall ''segment_5.mp4'',
        ConcatCall ''segment_1.mp4'' ''segment_5.mp4''] \<and>
   map (duration_at (fst (snd (splitVideo (quiet_world\<lparr>cut_reply := \<lambda>_ _. Some [60, 45]\<rparr>)
          (write_cwd empty_state ''segment_5.mp4'' (Video 10)) ''video.mp4'' 60))))
       [''segment_0.mp4'', ''segment_1.mp4'']
     = [Some 60, Some 55]"
  by code_simp


section \<open>The pipeline\<close>

subsection \<open>A narration that fails\<close>

lemma speech_call_fails:
  "audioFilePathOf subredditFolder shortTitle segmentIndex \<notin> dom (files st) \<Longrightarrow>
   tts_reply w segmentText = TtsCallFails \<Longrightarrow>
   processSegment w p subredditFolder shortTitle n segmentIndex segmentText st =
     (Inr (), st, [TtsCall segmentText])"
  by (simp add: processSegment_def generateSegmentSpeech_def Let_def)

lemma speech_stream_errors:
  "audioFilePathOf subredditFolder shortTitle segmentIndex \<notin> dom (files st) \<Longrightarrow>
   tts_reply w segmentText = TtsStreamErrors partial \<Longrightarrow>
   fst (processSegment w p subredditFolder shortTitle n segmentIndex segmentText st) = Inl TtsStreamError \<and>
   snd (snd (processSegment w p subredditFolder shortTitle n segmentIndex segmentText st)) = [TtsCall segmentText]"
  by (cases partial) (simp_all add: processSegment_def generateSegmentSpeech_def Let_def)

lemma segments_stream_errors:
  "audioFilePathOf subredditFolder shortTitle (i + 1) \<notin> dom (files st) \<Longrightarrow>
   tts_reply w segmentText = TtsStreamErrors partial \<Longrightarrow>
   fst (processSegments w p subredditFolder shortTitle n i (segmentText # rest) st) = Inl TtsStreamError \<and>
   snd (snd (processSegments w p subredditFolder shortTitle n i (segmentText # rest) st)) = [TtsCall segmentText]"
  using speech_stream_errors[of subredditFolder shortTitle "i + 1" st w segmentText partial p n]
  by (auto split: prod.splits sum.splits)

lemma segments_call_fails:
  "audioFilePathOf subredditFolder shortTitle (i + 1) \<notin> dom (files st) \<Longrightarrow>
   tts_reply w segmentText = TtsCallFails \<Longrightarrow>
   processSegments w p subredditFolder shortTitle n i (segmentText # rest) st =
     (fst (processSegments w p subredditFolder shortTitle n (i + 1) rest st),
      fst (snd (processSegments w p subredditFolder shortTitle n (i + 1) rest st)),
      TtsCall segmentText # snd (snd (processSegments w p subredditFolder shortTitle n (i + 1) rest st)))"
  using speech_call_fails[of subredditFolder shortTitle "i + 1" st w segmentText p n]
  by (simp split: prod.splits)

text \<open>
  Claim C1. A segment whose narration fails is given up (no image, no video, no
  upload) and the loop goes on with the next segment. This holds when the call
  \<open>PlayHT.stream\<close> itself throws (\<open>segments_call_fails\<close>). When the stream emits
  \<open>error\<close>, the promise that \<open>generateSegmentSpeech\<close> returned rejects outside its
  \<open>try\<close>, nothing in \<open>processPost\<close> or \<open>processSubreddits\<close> catches it, and the run
  ends: below, the second segment, the second post and the two other subreddits are
  never reached.
\<close>

theorem stream_error_aborts:
  "fst (processSegments
          (quiet_world\<lparr>tts_reply := \<lambda>t. if t = ''one.'' then TtsStreamErrors (Some 3) else TtsStreamEnds (Some 20)\<rparr>)
          (story ''First'' ''one. two.'') ''AmItheAsshole'' ''First'' 2 0 [''one.'', ''two.''] empty_state)
     = Inl TtsStreamError \<and>
   snd (snd (processSegments
          (quiet_world\<lparr>tts_reply := \<lambda>t. if t = ''one.'' then TtsStreamErrors (Some 3) else TtsStreamEnds (Some 20)\<rparr>)
          (story ''First'' ''one. two.'') ''AmItheAsshole'' ''First'' 2 0 [''one.'', ''two.''] empty_state))
     = [TtsCall ''one.''] \<and>
   fst (processPosts
          (quiet_world\<lparr>tts_reply := \<lambda>t. TtsStreamErrors None\<rparr>)
          empty_state [story ''First'' ''one.'', story ''Second'' ''two.''] ''AmItheAsshole'')
     = Inl TtsStreamError \<and>
   snd (snd (processPosts
          (quiet_world\<lparr>tts_reply := \<lambda>t. TtsStreamErrors None\<rparr>)
          empty_state [story ''First'' ''one.'', story ''Second'' ''two.''] ''AmItheAsshole''))
     = [CorrectCall ''First\<newline>\<newline>one.'', ShortenCall ''First'', DescribeCall ''First'' ''one.'',
        TtsCall ''First\<newline>\<newline>one.''] \<and>
   fst (processSubreddits
          (quiet_world\<lparr>fetch_reply := \<lambda>_ _. Some [story ''First'' ''one.''],
                        tts_reply := \<lambda>t. TtsStreamErrors None\<rparr>)
          empty_state)
     = Inl TtsStreamError \<and>
   snd (snd (processSubreddits
          (quiet_world\<lparr>fetch_reply := \<lambda>_ _. Some [story ''First'' ''one.''],
                        tts_reply := \<lambda>t. TtsStreamErrors None\<rparr>)
          empty_state))
     = [FetchCall ''AmItheAsshole'' ''top.json?t=all'',
        CorrectCall ''First\<newline>\<newline>one.'', ShortenCall ''First'', DescribeCall ''First'' ''one.'',
        TtsCall ''First\<newline>\<newline>one.'']"
  by code_simp


subsection \<open>The composition\<close>

text \<open>The encoder is asked for the probed duration of the narration, whatever the
  background.\<close>

lemma createVideo_request:
  "EncodeCall request \<in> set (snd (snd (createVideo w st backgroundPath audioPath screenshotPath outputPath))) \<Longrightarrow>
   fst (getAudioDuration w st audioPath) = Inr (enc_t request) \<and>
   enc_audio request = audioPath \<and> enc_background request = backgroundPath \<and>
   enc_output request = outputPath"
  by (auto simp: createVideo_def getAudioDuration_def Let_def
      split: option.splits if_splits artifact.splits prod.splits sum.splits)

text \<open>
  Claim C9, as amended. In every composition that succeeds, the narration is probed and
  the encoder is called once, with the probed duration of the narration as its output
  option \<open>-t\<close>, whatever the background clip is. The output clip has the duration the
  encoder writes: it is the duration of the narration when the encoder writes a clip of
  the duration it is asked for.
\<close>

theorem createVideo_duration:
  "fst (createVideo w st backgroundPath audioPath screenshotPath outputPath) = Inr out \<longrightarrow>
     (\<exists>audioDuration.
        fst (getAudioDuration w st audioPath) = Inr audioDuration \<and>
        out = outputPath \<and>
        snd (snd (createVideo w st backgroundPath audioPath screenshotPath outputPath)) =
          [ProbeCall audioPath,
           EncodeCall \<lparr>enc_background = backgroundPath, enc_seek = ''00:00:05'',
                       enc_screenshot = screenshotPath, enc_audio = audioPath,
                       enc_t = audioDuration, enc_output = outputPath\<rparr>] \<and>
        duration_at (fst (snd (createVideo w st backgroundPath audioPath screenshotPath outputPath)))
            outputPath
          = encode_reply w \<lparr>enc_background = backgroundPath, enc_seek = ''00:00:05'',
                             enc_screenshot = screenshotPath, enc_audio = audioPath,
                             enc_t = audioDuration, enc_output = outputPath\<rparr> \<and>
        (encode_reply w \<lparr>enc_background = backgroundPath, enc_seek = ''00:00:05'',
                          enc_screenshot = screenshotPath, enc_audio = audioPath,
                          enc_t = audioDuration, enc_output = outputPath\<rparr> = Some audioDuration \<longrightarrow>
         duration_at (fst (snd (createVideo w st backgroundPath audioPath screenshotPath outputPath)))
            outputPath
          = Some audioDuration))"
proof
  assume ok: "fst (createVideo w st backgroundPath audioPath screenshotPath outputPath) = Inr out"
  obtain r probeCalls where g: "getAudioDuration w st audioPath = (r, probeCalls)"
    by (metis prod.exhaust)
  then have pc: "probeCalls = [ProbeCall audioPath]"
    by (auto simp: getAudioDuration_def split: if_splits option.splits artifact.splits)
  from ok g obtain audioDuration where r: "r = Inr audioDuration"
    by (cases r) (simp_all add: createVideo_def)
  let ?request = "\<lparr>enc_background = backgroundPath, enc_seek = ''00:00:05'',
                    enc_screenshot = screenshotPath, enc_audio = audioPath,
                    enc_t = audioDuration, enc_output = outputPath\<rparr>"
  from ok g r obtain d where e: "encode_reply w ?request = Some d"
    by (cases "encode_reply w ?request") (simp_all add: createVideo_def Let_def)
  have cv: "createVideo w st backgroundPath audioPath screenshotPath outputPath =
      (Inr outputPath, st\<lparr>files := (files st)(outputPath \<mapsto> Video d)\<rparr>,
       [ProbeCall audioPath, EncodeCall ?request])"
    using g r e pc by (simp add: createVideo_def Let_def)
  show "\<exists>audioDuration.
        fst (getAudioDuration w st audioPath) = Inr audioDuration \<and>
        out = outputPath \<and>
        snd (snd (createVideo w st backgroundPath audioPath screenshotPath outputPath)) =
          [ProbeCall audioPath,
           EncodeCall \<lparr>enc_background = backgroundPath, enc_seek = ''00:00:05'',
                       enc_screenshot = screenshotPath, enc_audio = audioPath,
                       enc_t = audioDuration, enc_output = outputPath\<rparr>] \<and>
        duration_at (fst (snd (createVideo w st backgroundPath audioPath screenshotPath outputPath)))
            outputPath
          = encode_reply w \<lparr>enc_background = backgroundPath, enc_seek = ''00:00:05'',
                             enc_screenshot = screenshotPath, enc_audio = audioPath,
                             enc_t = audioDuration, enc_output = outputPath\<rparr> \<and>
        (encode_reply w \<lparr>enc_background = backgroundPath, enc_seek = ''00:00:05'',
                          enc_screenshot = screenshotPath, enc_audio = audioPath,
                          enc_t = audioDuration, enc_output = outputPath\<rparr> = Some audioDuration \<longrightarrow>
         duration_at (fst (snd (createVideo w st backgroundPath audioPath screenshotPath outputPath)))
            outputPath
          = Some audioDuration)"
  proof (intro exI[of _ audioDuration] conjI impI)
    show "fst (getAudioDuration w st audioPath) = Inr audioDuration" using g r by simp
    show "out = outputPath" using ok cv by simp
    show "snd (snd (createVideo w st backgroundPath audioPath screenshotPath outputPath)) =
          [ProbeCall audioPath, EncodeCall ?request]" using cv by simp
    show "duration_at (fst (snd (createVideo w st backgroundPath audioPath screenshotPath outputPath)))
            outputPath = encode_reply w ?request"
      using cv e by (simp add: duration_at_def)
    then show "duration_at (fst (snd (createVideo w st backgroundPath audioPath screenshotPath outputPath)))
            outputPath = Some audioDuration"
      if "encode_reply w ?request = Some audioDuration"
      using that by simp
  qed
qed

text \<open>A narration of 20 seconds over a background of 10 seconds and over one of 600
  seconds, with an encoder that writes the duration it is asked for: the clip lasts 20
  seconds both times.\<close>

theorem createVideo_duration_witness:
  "fst (createVideo quiet_world (narrated 10) ''bg.mp4'' ''a.mp3'' ''s.png'' ''out.mp4'') = Inr ''out.mp4'' \<and>
   duration_at (fst (snd (createVideo quiet_world (narrated 10) ''bg.mp4'' ''a.mp3'' ''s.png'' ''out.mp4'')))
       ''out.mp4'' = Some 20 \<and>
   fst (createVideo quiet_world (narrated 600) ''bg.mp4'' ''a.mp3'' ''s.png'' ''out.mp4'') = Inr ''out.mp4'' \<and>
   duration_at (fst (snd (createVideo quiet_world (narrated 600) ''bg.mp4'' ''a.mp3'' ''s.png'' ''out.mp4'')))
       ''out.mp4'' = Some 20"
proof -
  have ok: "fst (createVideo quiet_world (narrated b) ''bg.mp4'' ''a.mp3'' ''s.png'' ''out.mp4'') = Inr ''out.mp4''"
    for b
    by (simp add: createVideo_def getAudioDuration_def quiet_world_def narrated_def empty_state_def)
  have p: "fst (getAudioDuration quiet_world (narrated b) ''a.mp3'') = Inr 20" for b
    by (simp add: getAudioDuration_def quiet_world_def narrated_def empty_state_def)
  have e: "encode_reply quiet_world r = Some (enc_t r)" for r
    by (simp add: quiet_world_def)
  have "duration_at (fst (snd (createVideo quiet_world (narrated b) ''bg.mp4'' ''a.mp3'' ''s.png'' ''out.mp4'')))
       ''out.mp4'' = Some 20" for b
    using createVideo_duration[of quiet_world "narrated b" "''bg.mp4''" "''a.mp3''" "''s.png''"
        "''out.mp4''" "''out.mp4''"] ok[of b] p[of b] e
    by auto
  with ok show ?thesis by simp
qed

text \<open>
  The claim as stated fails with an encoder that writes a clip longer than it is asked
  for: the narration is probed at 7 seconds, the encoder is asked for 7 seconds and
  writes 9, and the output clip lasts 9 seconds.
\<close>

theorem createVideo_encoder_duration:
  "fst (getAudioDuration (quiet_world\<lparr>encode_reply := \<lambda>r. Some (enc_t r + 2)\<rparr>)
          (empty_state\<lparr>files := [''a.mp3'' \<mapsto> Audio 7]\<rparr>) ''a.mp3'') = Inr 7 \<and>
   fst (createVideo (quiet_world\<lparr>encode_reply := \<lambda>r. Some (enc_t r + 2)\<rparr>)
          (empty_state\<lparr>files := [''a.mp3'' \<mapsto> Audio 7]\<rparr>)
          ''bg.mp4'' ''a.mp3'' ''s.png'' ''out.mp4'') = Inr ''out.mp4'' \<and>
   snd (snd (createVideo (quiet_world\<lparr>encode_reply := \<lambda>r. Some (enc_t r + 2)\<rparr>)
          (empty_state\<lparr>files := [''a.mp3'' \<mapsto> Audio 7]\<rparr>)
          ''bg.mp4'' ''a.mp3'' ''s.png'' ''out.mp4'')) =
     [ProbeCall ''a.mp3'',
      EncodeCall \<lparr>enc_background = ''bg.mp4'', enc_seek = ''00:00:05'', enc_screenshot = ''s.png'',
                  enc_audio = ''a.mp3'', enc_t = 7, enc_output = ''out.mp4''\<rparr>] \<and>
   duration_at (fst (snd (createVideo (quiet_world\<lparr>encode_reply := \<lambda>r. Some (enc_t r + 2)\<rparr>)
          (empty_state\<lparr>files := [''a.mp3'' \<mapsto> Audio 7]\<rparr>)
          ''bg.mp4'' ''a.mp3'' ''s.png'' ''out.mp4''))) ''out.mp4'' = Some 9 \<and>
   duration_at (fst (snd (createVideo (quiet_world\<lparr>encode_reply := \<lambda>r. Some (enc_t r + 2)\<rparr>)
          (empty_state\<lparr>files := [''a.mp3'' \<mapsto> Audio 7]\<rparr>)
          ''bg.mp4'' ''a.mp3'' ''s.png'' ''out.mp4''))) ''out.mp4'' \<noteq> Some 7"
  by code_simp

subsection \<open>The calls of one segment\<close>

lemma speech_calls:
  "set (snd (snd (generateSegmentSpeech w st segmentText shortTitle subredditFolder segmentIndex)))
     \<subseteq> {TtsCall segmentText}"
  by (auto simp: generateSegmentSpeech_def Let_def split: tts_outcome.splits option.splits)

lemma screenshot_calls:
  "set (snd (snd (generateScreenshot w st p shortTitle subredditFolder customContent segmentIndex)))
     \<subseteq> {CorrectCall (selftext p), RenderCall (screenshotPathOf subredditFolder shortTitle segmentIndex)}"
  by (auto simp: generateScreenshot_def correctText_def Let_def split: option.splits if_splits)

lemma video_calls:
  "\<forall>e \<in> set (snd (snd (createVideo w st backgroundPath audioPath screenshotPath outputPath))).
     \<not> is_split_call e \<and> \<not> is_upload_call e \<and> \<not> is_describe_call e"
  by (auto simp: createVideo_def getAudioDuration_def Let_def
      split: option.splits if_splits artifact.splits prod.splits sum.splits)

lemma upload_calls:
  "\<exists>description. snd (uploadToYouTube w st videoPath t) = [UploadCall videoPath t description]"
  by (simp add: uploadToYouTube_def Let_def)

lemma segment_calls:
  assumes "e \<in> set (snd (snd (processSegment w p subredditFolder shortTitle n segmentIndex segmentText st)))"
  shows "\<not> is_split_call e \<and>
         (is_upload_call e \<longrightarrow>
            uploaded_path e = Some (outputVideoPathOf subredditFolder shortTitle segmentIndex))"
proof -
  let ?out = "outputVideoPathOf subredditFolder shortTitle segmentIndex"
  let ?good = "\<lambda>x. \<not> is_split_call x \<and> (is_upload_call x \<longrightarrow> uploaded_path x = Some ?out)"
  obtain r1 s1 c1 where sp:
    "generateSegmentSpeech w st segmentText shortTitle subredditFolder segmentIndex = (r1, s1, c1)"
    by (metis prod_cases3)
  have a: "\<forall>x\<in>set c1. ?good x"
    using speech_calls[of w st segmentText shortTitle subredditFolder segmentIndex] sp by auto
  obtain r2 s2 c2 where sh:
    "generateScreenshot w s1 p shortTitle subredditFolder (Some segmentText) (Some segmentIndex) = (r2, s2, c2)"
    by (metis prod_cases3)
  have b: "\<forall>x\<in>set c2. ?good x"
    using screenshot_calls[of w s1 p shortTitle subredditFolder "Some segmentText" "Some segmentIndex"] sh
    by auto
  have d: "\<forall>x\<in>set (snd (uploadToYouTube w s ?out t)). ?good x" for s t
    using upload_calls[of w s ?out t] by auto
  show ?thesis
  proof (cases r1)
    case (Inl e1)
    with assms sp a show ?thesis by (simp add: processSegment_def)
  next
    case (Inr made)
    show ?thesis
    proof (cases made)
      case None
      with Inr assms sp a show ?thesis by (simp add: processSegment_def)
    next
      case (Some audioPath)
      show ?thesis
      proof (cases r2)
        case (Inl e2)
        with Some Inr assms sp sh a b show ?thesis by (auto simp: processSegment_def)
      next
        case shot: (Inr shotPath)
        show ?thesis
        proof (cases "?out \<in> dom (files s2)")
          case True
          with shot Some Inr assms sp sh
          have "e \<in> set c1 \<union> set c2 \<union> set (snd (uploadToYouTube w s2 ?out (uploadTitle shortTitle n segmentIndex)))"
            by (auto simp: processSegment_def Let_def)
          with a b d show ?thesis by blast
        next
          case False
          obtain r3 s3 c3 where cv:
            "createVideo w s2 backgroundVideoPath audioPath shotPath ?out = (r3, s3, c3)"
            by (metis prod_cases3)
          have c: "\<forall>x\<in>set c3. ?good x"
            using video_calls[of w s2 backgroundVideoPath audioPath shotPath ?out] cv by auto
          from False shot Some Inr assms sp sh cv
          have "e \<in> set c1 \<union> set c2 \<union> set c3 \<union>
                  set (snd (uploadToYouTube w s3 ?out (uploadTitle shortTitle n segmentIndex)))"
            by (cases r3) (auto simp: processSegment_def Let_def)
          with a b c d show ?thesis by blast
        qed
      qed
    qed
  qed
qed

lemma segments_calls:
  "e \<in> set (snd (snd (processSegments w p subredditFolder shortTitle n i segs st))) \<Longrightarrow>
   \<not> is_split_call e \<and>
   (is_upload_call e \<longrightarrow>
      (\<exists>j. i < j \<and> j \<le> i + length segs \<and>
           uploaded_path e = Some (outputVideoPathOf subredditFolder shortTitle j)))"
proof (induction segs arbitrary: i st)
  case Nil
  then show ?case by simp
next
  case (Cons segmentText rest)
  obtain r1 s1 c1 where one:
    "processSegment w p subredditFolder shortTitle n (i + 1) segmentText st = (r1, s1, c1)"
    by (metis prod_cases3)
  have a: "x \<in> set c1 \<Longrightarrow> \<not> is_split_call x \<and>
         (is_upload_call x \<longrightarrow> uploaded_path x = Some (outputVideoPathOf subredditFolder shortTitle (i + 1)))" for x
    using segment_calls[of x w p subredditFolder shortTitle n "i + 1" segmentText st] one by simp
  from Cons.prems one
  have "e \<in> set c1 \<or> e \<in> set (snd (snd (processSegments w p subredditFolder shortTitle n (i + 1) rest s1)))"
    by (cases r1) (auto split: prod.splits)
  then show ?case
  proof
    assume "e \<in> set c1"
    from a[OF this] show ?thesis by auto
  next
    assume "e \<in> set (snd (snd (processSegments w p subredditFolder shortTitle n (i + 1) rest s1)))"
    from Cons.IH[OF this] have ns: "\<not> is_split_call e"
      and up: "is_upload_call e \<longrightarrow>
        (\<exists>j. i + 1 < j \<and> j \<le> i + 1 + length rest \<and>
             uploaded_path e = Some (outputVideoPathOf subredditFolder shortTitle j))"
      by blast+
    show ?thesis
    proof (intro conjI impI)
      show "\<not> is_split_call e" by (rule ns)
    next
      assume "is_upload_call e"
      with up obtain j where "i + 1 < j" "j \<le> i + 1 + length rest"
        "uploaded_path e = Some (outputVideoPathOf subredditFolder shortTitle j)" by blast
      then have "i < j \<and> j \<le> i + length (segmentText # rest) \<and>
          uploaded_path e = Some (outputVideoPathOf subredditFolder shortTitle j)" by simp
      then show "\<exists>j. i < j \<and> j \<le> i + length (segmentText # rest) \<and>
          uploaded_path e = Some (outputVideoPathOf subredditFolder shortTitle j)" ..
    qed
  qed
qed


lemma post_calls:
  "snd (snd (processPost w st p subredditFolder)) =
     (if skipped p then []
      else snd (correctText w (title p @ ''\<newline>\<newline>'' @ selftext p)) @
           snd (snd (getShortTitle w st (title p))) @
           (case fst (getShortTitle w st (title p)) of
              None \<Rightarrow> [DescribeCall (title p) (selftext p)]
            | Some shortTitle \<Rightarrow>
                snd (snd (generateDescription w (fst (snd (getShortTitle w st (title p)))) (title p)
                            (selftext p) subredditFolder shortTitle)) @
                snd (snd (processSegments w p subredditFolder shortTitle (length (segmentsOf w p)) 0
                            (segmentsOf w p)
                            (fst (snd (generateDescription w (fst (snd (getShortTitle w st (title p))))
                               (title p) (selftext p) subredditFolder shortTitle)))))))"
  by (auto simp: processPost_def skipped_def Let_def split: prod.splits option.splits)

lemma correct_calls: "snd (correctText w t) = [CorrectCall t]"
  by (simp add: correctText_def split: option.splits)

lemma title_calls: "set (snd (snd (getShortTitle w st t))) \<subseteq> {ShortenCall t}"
  by (auto simp: getShortTitle_def shortenTitle_def split: option.splits if_splits)

text \<open>The cache of short titles is a plain object. Under a title that names an
  inherited property, such as \<open>constructor\<close>, the lookup finds a value that is not a
  string: no shortening call is made, the description is asked for, and the first
  segment throws where the title is used as a string.\<close>

lemma inherited_title:
  "fst (getShortTitle quiet_world empty_state ''constructor'') = None \<and>
   fst (processPost quiet_world empty_state (story ''constructor'' ''one.'') ''AmItheAsshole'')
     = Inl TypeError \<and>
   snd (snd (processPost quiet_world empty_state (story ''constructor'' ''one.'') ''AmItheAsshole''))
     = [CorrectCall ''constructor\<newline>\<newline>one.'', DescribeCall ''constructor'' ''one.'']"
  by code_simp

lemma describe_calls:
  "snd (snd (generateDescription w st t postText subredditFolder shortTitle)) = [DescribeCall t postText]"
  by (simp add: generateDescription_def split: option.splits)

text \<open>
  Claim C3, as amended. Every clip \<open>processPost\<close> uploads is the rendered video of one
  of the post's segments, at the path of that segment, and \<open>processPost\<close> makes no cut
  and no concat call: \<open>splitVideo\<close> and its merge step are not on the way to the
  upload, so neither a maximum nor the 30-second minimum is enforced on what is
  published.
\<close>

theorem published_clips:
  "\<forall>e \<in> set (snd (snd (processPost w st p subredditFolder))).
     \<not> is_split_call e \<and>
     (is_upload_call e \<longrightarrow>
        (\<exists>i. 1 \<le> i \<and> i \<le> length (segmentsOf w p) \<and>
             uploaded_path e = Some (outputVideoPathOf subredditFolder (shortTitleOf w st p) i)))"
proof
  fix e assume e: "e \<in> set (snd (snd (processPost w st p subredditFolder)))"
  show "\<not> is_split_call e \<and>
     (is_upload_call e \<longrightarrow>
        (\<exists>i. 1 \<le> i \<and> i \<le> length (segmentsOf w p) \<and>
             uploaded_path e = Some (outputVideoPathOf subredditFolder (shortTitleOf w st p) i)))"
  proof (cases "fst (getShortTitle w st (title p))")
    case None
    with e have "e = CorrectCall (title p @ ''\<newline>\<newline>'' @ selftext p) \<or> e = ShortenCall (title p) \<or>
        e = DescribeCall (title p) (selftext p)"
      using title_calls[of w st "title p"]
      by (auto simp: post_calls correct_calls split: if_splits)
    then show ?thesis by (elim disjE) simp_all
  next
    case (Some shortTitle)
    then have t: "shortTitleOf w st p = shortTitle" by (simp add: shortTitleOf_def)
    let ?st2 = "fst (snd (generateDescription w (fst (snd (getShortTitle w st (title p)))) (title p)
                            (selftext p) subredditFolder shortTitle))"
    let ?loop = "processSegments w p subredditFolder shortTitle (length (segmentsOf w p)) 0
                    (segmentsOf w p) ?st2"
    from e Some have "e = CorrectCall (title p @ ''\<newline>\<newline>'' @ selftext p) \<or> e = ShortenCall (title p) \<or>
        e = DescribeCall (title p) (selftext p) \<or> e \<in> set (snd (snd ?loop))"
      using title_calls[of w st "title p"]
      by (auto simp: post_calls correct_calls describe_calls split: if_splits)
    then show ?thesis
    proof (elim disjE)
      assume "e \<in> set (snd (snd ?loop))"
      from segments_calls[OF this] show ?thesis
        by (auto simp: Suc_le_eq t)
    qed simp_all
  qed
qed

theorem published_clips_witness:
  "UploadCall ''./AmItheAsshole/first/ogVid/video_first_part1.mp4''
      ''First  #relationshipadvice #shorts #trending #viral'' ''about''
     \<in> set (snd (snd (processPost quiet_world empty_state (story ''First'' ''one.'') ''AmItheAsshole''))) \<and>
   (\<exists>i. 1 \<le> i \<and> i \<le> length (segmentsOf quiet_world (story ''First'' ''one.'')) \<and>
        ''./AmItheAsshole/first/ogVid/video_first_part1.mp4'' =
          outputVideoPathOf ''AmItheAsshole''
            (shortTitleOf quiet_world empty_state (story ''First'' ''one.'')) i)"
proof -
  have m: "UploadCall ''./AmItheAsshole/first/ogVid/video_first_part1.mp4''
      ''First  #relationshipadvice #shorts #trending #viral'' ''about''
     \<in> set (snd (snd (processPost quiet_world empty_state (story ''First'' ''one.'') ''AmItheAsshole'')))"
    by code_simp
  from published_clips[of quiet_world empty_state "story ''First'' ''one.''" "''AmItheAsshole''", rule_format, OF m]
  show ?thesis using m by simp
qed

text \<open>
  The claim as stated fails: a narration of 200 seconds gives a clip of 200 seconds
  (the encoder honours \<open>-t\<close>), which is uploaded as it is, above the 60 seconds of
  \<open>splitVideo\<close>.
\<close>

theorem long_clip_published:
  "map uploaded_path (filter is_upload_call (snd (snd (processPost
       (quiet_world\<lparr>tts_reply := \<lambda>_. TtsStreamEnds (Some 200)\<rparr>)
       empty_state (story ''First'' ''one.'') ''AmItheAsshole''))))
     = [Some ''./AmItheAsshole/first/ogVid/video_first_part1.mp4''] \<and>
   duration_at (fst (snd (processPost
       (quiet_world\<lparr>tts_reply := \<lambda>_. TtsStreamEnds (Some 200)\<rparr>)
       empty_state (story ''First'' ''one.'') ''AmItheAsshole'')))
     ''./AmItheAsshole/first/ogVid/video_first_part1.mp4'' = Some 200 \<and>
   \<not> (200 \<le> (60::real))"
  by code_simp


text \<open>Nor is there a minimum: two posts whose narrations last 10 seconds give two clips
  of 10 seconds, and both are uploaded.\<close>

lemma short_clips_published:
  "map uploaded_path (filter is_upload_call (snd (snd (processPosts
       (quiet_world\<lparr>tts_reply := \<lambda>_. TtsStreamEnds (Some 10)\<rparr>)
       empty_state [story ''First'' ''one.'', story ''Second'' ''two.''] ''AmItheAsshole''))))
     = [Some ''./AmItheAsshole/first/ogVid/video_first_part1.mp4'',
        Some ''./AmItheAsshole/second/ogVid/video_second_part1.mp4''] \<and>
   map (duration_at (fst (snd (processPosts
       (quiet_world\<lparr>tts_reply := \<lambda>_. TtsStreamEnds (Some 10)\<rparr>)
       empty_state [story ''First'' ''one.'', story ''Second'' ''two.''] ''AmItheAsshole''))))
     [''./AmItheAsshole/first/ogVid/video_first_part1.mp4'',
      ''./AmItheAsshole/second/ogVid/video_second_part1.mp4'']
     = [Some 10, Some 10]"
  by code_simp

subsection \<open>A second run over a finished post\<close>

lemma segment_cached:
  assumes "audioFilePathOf subredditFolder shortTitle segmentIndex \<in> dom (files st)"
      and "screenshotPathOf subredditFolder shortTitle (Some segmentIndex) \<in> dom (files st)"
      and "outputVideoPathOf subredditFolder shortTitle segmentIndex \<in> dom (files st)"
  shows "processSegment w p subredditFolder shortTitle n segmentIndex segmentText st =
     (Inr (), st,
      (if segmentText \<noteq> [] then [] else [CorrectCall (selftext p)]) @
      snd (uploadToYouTube w st (outputVideoPathOf subredditFolder shortTitle segmentIndex)
             (uploadTitle shortTitle n segmentIndex)))"
  using assms
  by (simp add: processSegment_def generateSegmentSpeech_def generateScreenshot_def Let_def correct_calls)

lemma segments_cached:
  assumes "\<forall>j. i < j \<and> j \<le> i + length segs \<longrightarrow>
             audioFilePathOf subredditFolder shortTitle j \<in> dom (files st) \<and>
             screenshotPathOf subredditFolder shortTitle (Some j) \<in> dom (files st) \<and>
             outputVideoPathOf subredditFolder shortTitle j \<in> dom (files st)"
  shows "fst (processSegments w p subredditFolder shortTitle n i segs st) = Inr () \<and>
         fst (snd (processSegments w p subredditFolder shortTitle n i segs st)) = st \<and>
         (\<forall>e \<in> set (snd (snd (processSegments w p subredditFolder shortTitle n i segs st))).
            \<not> is_asset_call e \<and> \<not> is_describe_call e) \<and>
         length (filter is_upload_call (snd (snd (processSegments w p subredditFolder shortTitle n i segs st))))
           = length segs"
  using assms
proof (induction segs arbitrary: i)
  case Nil
  show ?case by simp
next
  case (Cons segmentText rest)
  from Cons.prems have here:
    "audioFilePathOf subredditFolder shortTitle (i + 1) \<in> dom (files st)"
    "screenshotPathOf subredditFolder shortTitle (Some (i + 1)) \<in> dom (files st)"
    "outputVideoPathOf subredditFolder shortTitle (i + 1) \<in> dom (files st)"
    by simp_all
  from Cons.prems have later: "\<forall>j. i + 1 < j \<and> j \<le> i + 1 + length rest \<longrightarrow>
             audioFilePathOf subredditFolder shortTitle j \<in> dom (files st) \<and>
             screenshotPathOf subredditFolder shortTitle (Some j) \<in> dom (files st) \<and>
             outputVideoPathOf subredditFolder shortTitle j \<in> dom (files st)"
    by simp
  obtain description where up:
    "snd (uploadToYouTube w st (outputVideoPathOf subredditFolder shortTitle (i + 1))
            (uploadTitle shortTitle n (i + 1))) =
       [UploadCall (outputVideoPathOf subredditFolder shortTitle (i + 1))
          (uploadTitle shortTitle n (i + 1)) description]"
    using upload_calls by blast
  note one = segment_cached[OF here, of w p n segmentText]
  obtain r s c where more:
    "processSegments w p subredditFolder shortTitle n (i + 1) rest st = (r, s, c)"
    by (metis prod_cases3)
  with Cons.IH[OF later] have ih: "r = Inr ()" "s = st"
    "\<forall>e \<in> set c. \<not> is_asset_call e \<and> \<not> is_describe_call e"
    "length (filter is_upload_call c) = length rest"
    by simp_all
  have "processSegments w p subredditFolder shortTitle n i (segmentText # rest) st =
      (Inr (), st,
       ((if segmentText \<noteq> [] then [] else [CorrectCall (selftext p)]) @
        [UploadCall (outputVideoPathOf subredditFolder shortTitle (i + 1))
           (uploadTitle shortTitle n (i + 1)) description]) @ c)"
    using one up more ih(1,2) by simp
  with ih(3,4) show ?case by simp
qed

text \<open>
  Claim C2, as amended. A second run over an unchanged post whose short title is cached
  and whose audio, caption image and video are there for every segment makes no
  narration, render, probe, encode or title-shortening call. It does call the
  corrector again, the description generator once, and the publisher once for every
  segment: neither the description nor an upload is skipped for work done before.
\<close>

theorem rerun_calls:
  "\<not> skipped p \<and>
   shortTitleCache st (title p) = Some shortTitle \<and> shortTitle \<noteq> [] \<and>
   (\<forall>i. 1 \<le> i \<and> i \<le> length (segmentsOf w p) \<longrightarrow>
      audioFilePathOf subredditFolder shortTitle i \<in> dom (files st) \<and>
      screenshotPathOf subredditFolder shortTitle (Some i) \<in> dom (files st) \<and>
      outputVideoPathOf subredditFolder shortTitle i \<in> dom (files st)) \<longrightarrow>
   fst (processPost w st p subredditFolder) = Inr () \<and>
   (\<forall>e \<in> set (snd (snd (processPost w st p subredditFolder))). \<not> is_asset_call e) \<and>
   CorrectCall (title p @ ''\<newline>\<newline>'' @ selftext p) \<in> set (snd (snd (processPost w st p subredditFolder))) \<and>
   filter is_describe_call (snd (snd (processPost w st p subredditFolder)))
     = [DescribeCall (title p) (selftext p)] \<and>
   length (filter is_upload_call (snd (snd (processPost w st p subredditFolder))))
     = length (segmentsOf w p)"
proof
  assume h: "\<not> skipped p \<and>
   shortTitleCache st (title p) = Some shortTitle \<and> shortTitle \<noteq> [] \<and>
   (\<forall>i. 1 \<le> i \<and> i \<le> length (segmentsOf w p) \<longrightarrow>
      audioFilePathOf subredditFolder shortTitle i \<in> dom (files st) \<and>
      screenshotPathOf subredditFolder shortTitle (Some i) \<in> dom (files st) \<and>
      outputVideoPathOf subredditFolder shortTitle i \<in> dom (files st))"
  then have adm: "\<not> skipped p"
    and cache: "shortTitleCache st (title p) = Some shortTitle" "shortTitle \<noteq> []"
    and present: "\<forall>i. 1 \<le> i \<and> i \<le> length (segmentsOf w p) \<longrightarrow>
      audioFilePathOf subredditFolder shortTitle i \<in> dom (files st) \<and>
      screenshotPathOf subredditFolder shortTitle (Some i) \<in> dom (files st) \<and>
      outputVideoPathOf subredditFolder shortTitle i \<in> dom (files st)"
    by blast+
  from cache have hit: "getShortTitle w st (title p) = (Some shortTitle, st, [])"
    by (simp add: getShortTitle_def)
  let ?st2 = "fst (snd (generateDescription w st (title p) (selftext p) subredditFolder shortTitle))"
  have grows: "dom (files st) \<subseteq> dom (files ?st2)"
    by (auto simp: generateDescription_def split: option.splits)
  with present have present2: "\<forall>j. 0 < j \<and> j \<le> 0 + length (segmentsOf w p) \<longrightarrow>
      audioFilePathOf subredditFolder shortTitle j \<in> dom (files ?st2) \<and>
      screenshotPathOf subredditFolder shortTitle (Some j) \<in> dom (files ?st2) \<and>
      outputVideoPathOf subredditFolder shortTitle j \<in> dom (files ?st2)"
    by (auto simp: Suc_le_eq)
  let ?loop = "processSegments w p subredditFolder shortTitle (length (segmentsOf w p)) 0 (segmentsOf w p) ?st2"
  note loop = segments_cached[OF present2, of w p "length (segmentsOf w p)"]
  have calls: "snd (snd (processPost w st p subredditFolder)) =
      CorrectCall (title p @ ''\<newline>\<newline>'' @ selftext p) # DescribeCall (title p) (selftext p) # snd (snd ?loop)"
    using adm by (simp add: post_calls hit correct_calls describe_calls)
  have res: "fst (processPost w st p subredditFolder) = fst ?loop"
    using adm by (simp add: processPost_def skipped_def Let_def hit split: prod.splits)
  from loop calls res
  show "fst (processPost w st p subredditFolder) = Inr () \<and>
   (\<forall>e \<in> set (snd (snd (processPost w st p subredditFolder))). \<not> is_asset_call e) \<and>
   CorrectCall (title p @ ''\<newline>\<newline>'' @ selftext p) \<in> set (snd (snd (processPost w st p subredditFolder))) \<and>
   filter is_describe_call (snd (snd (processPost w st p subredditFolder)))
     = [DescribeCall (title p) (selftext p)] \<and>
   length (filter is_upload_call (snd (snd (processPost w st p subredditFolder))))
     = length (segmentsOf w p)"
    by (simp add: filter_empty_conv)
qed

text \<open>
  The claim as stated fails: the second of two runs over the same post, with every
  artifact of the first run in place, calls the corrector, the description generator
  and the publisher again.
\<close>

theorem rerun_repeats_calls:
  "snd (snd (processPost quiet_world
       (fst (snd (processPost quiet_world empty_state (story ''First'' ''one.'') ''AmItheAsshole'')))
       (story ''First'' ''one.'') ''AmItheAsshole''))
     = [CorrectCall ''First\<newline>\<newline>one.'',
        DescribeCall ''First'' ''one.'',
        UploadCall ''./AmItheAsshole/first/ogVid/video_first_part1.mp4''
          ''First  #relationshipadvice #shorts #trending #viral'' ''about'']"
  by code_simp

theorem rerun_calls_witness:
  "length (segmentsOf quiet_world (story ''First'' ''one.'')) = 1 \<and>
   fst (processPost quiet_world
       (fst (snd (processPost quiet_world empty_state (story ''First'' ''one.'') ''AmItheAsshole'')))
       (story ''First'' ''one.'') ''AmItheAsshole'') = Inr () \<and>
   length (filter is_upload_call (snd (snd (processPost quiet_world
       (fst (snd (processPost quiet_world empty_state (story ''First'' ''one.'') ''AmItheAsshole'')))
       (story ''First'' ''one.'') ''AmItheAsshole'')))) = 1 \<and>
   filter is_describe_call (snd (snd (processPost quiet_world
       (fst (snd (processPost quiet_world empty_state (story ''First'' ''one.'') ''AmItheAsshole'')))
       (story ''First'' ''one.'') ''AmItheAsshole''))) = [DescribeCall ''First'' ''one.'']"
proof -
  let ?p = "story ''First'' ''one.''"
  let ?st = "fst (snd (processPost quiet_world empty_state ?p ''AmItheAsshole''))"
  have n: "length (segmentsOf quiet_world ?p) = 1" by code_simp
  have adm: "\<not> skipped ?p" by code_simp
  have cache: "shortTitleCache ?st (title ?p) = Some ''First''" by code_simp
  have a: "files ?st (audioFilePathOf ''AmItheAsshole'' ''First'' 1) \<noteq> None" by code_simp
  have b: "files ?st (screenshotPathOf ''AmItheAsshole'' ''First'' (Some 1)) \<noteq> None" by code_simp
  have c: "files ?st (outputVideoPathOf ''AmItheAsshole'' ''First'' 1) \<noteq> None" by code_simp
  have present: "\<forall>i. 1 \<le> i \<and> i \<le> length (segmentsOf quiet_world ?p) \<longrightarrow>
      audioFilePathOf ''AmItheAsshole'' ''First'' i \<in> dom (files ?st) \<and>
      screenshotPathOf ''AmItheAsshole'' ''First'' (Some i) \<in> dom (files ?st) \<and>
      outputVideoPathOf ''AmItheAsshole'' ''First'' i \<in> dom (files ?st)"
  proof (intro allI impI)
    fix i :: nat assume "1 \<le> i \<and> i \<le> length (segmentsOf quiet_world ?p)"
    with n have "i = 1" by simp
    with a b c show "audioFilePathOf ''AmItheAsshole'' ''First'' i \<in> dom (files ?st) \<and>
      screenshotPathOf ''AmItheAsshole'' ''First'' (Some i) \<in> dom (files ?st) \<and>
      outputVideoPathOf ''AmItheAsshole'' ''First'' i \<in> dom (files ?st)"
      by (simp only: domIff simp_thms)
  qed
  have t: "title ?p = ''First''" "selftext ?p = ''one.''" by (simp_all add: story_def)
  from rerun_calls[of ?p ?st "''First''" quiet_world "''AmItheAsshole''"] adm cache present n
  show ?thesis by (simp add: t)
qed


end
